theory Spec2Isabelle
  imports Complex_Main "HOL-Library.Multiset"
begin

section \<open>Python values used by the retrieval and reranking engine\<close>

text \<open>
  Python floats are modelled as \<open>real\<close> (exact arithmetic, no rounding, no NaN), Python
  ints as \<open>int\<close>, Python strings as \<open>string\<close> restricted to ASCII text. An exception
  is a value of \<open>py_exception\<close>; a function that can raise returns
  \<open>py_exception + 'a\<close> with \<open>Inl\<close> for the raise.
\<close>

datatype py_exception = ZeroDivisionError | ValueError | KeyError | TransportError string

text \<open>\<^verbatim>\<open>xs[:n]\<close>: a negative \<open>n\<close> counts from the end.\<close>

definition py_slice_to :: "int \<Rightarrow> 'a list \<Rightarrow> 'a list" where
  "py_slice_to n xs =
     (if 0 \<le> n then take (nat n) xs else take (length xs - nat (- n)) xs)"

text \<open>\<^verbatim>\<open>str.isspace\<close>, \<^verbatim>\<open>str.strip()\<close>, \<^verbatim>\<open>str.upper()\<close>, \<^verbatim>\<open>str.lower()\<close>
  and \<^verbatim>\<open>str.startswith\<close> on ASCII text.\<close>

definition is_space :: "char \<Rightarrow> bool" where
  "is_space c = (let n = (of_char c :: nat) in (9 \<le> n \<and> n \<le> 13) \<or> (28 \<le> n \<and> n \<le> 32))"

definition py_strip :: "string \<Rightarrow> string" where
  "py_strip s = rev (dropWhile is_space (rev (dropWhile is_space s)))"

definition upper_char :: "char \<Rightarrow> char" where
  "upper_char c = (let n = (of_char c :: nat) in if 97 \<le> n \<and> n \<le> 122 then char_of (n - 32) else c)"

definition lower_char :: "char \<Rightarrow> char" where
  "lower_char c = (let n = (of_char c :: nat) in if 65 \<le> n \<and> n \<le> 90 then char_of (n + 32) else c)"

definition py_upper :: "string \<Rightarrow> string" where
  "py_upper s = map upper_char s"

definition py_lower :: "string \<Rightarrow> string" where
  "py_lower s = map lower_char s"

definition startswith :: "string \<Rightarrow> string \<Rightarrow> bool" where
  "startswith s p = (take (length p) s = p)"

text \<open>\<^verbatim>\<open>str(n)\<close> for a natural number.\<close>

fun str_nat :: "nat \<Rightarrow> string" where
  "str_nat n =
     (if n < 10 then [char_of (48 + n)]
      else str_nat (n div 10) @ [char_of (48 + n mod 10)])"

declare str_nat.simps [simp del]

section \<open>Configuration (config.py)\<close>

record RetrievalConfig =
  dense_top_k :: int
  sparse_top_k :: int
  fusion_top_k :: int
  score_threshold :: real

record RerankingConfig =
  batch_size :: int
  max_candidates :: int
  min_relevance_score :: real

record PipelineConfig =
  retrieval :: RetrievalConfig
  reranking :: RerankingConfig
  top_k_results :: int

definition DEFAULT_CONFIG :: PipelineConfig where
  "DEFAULT_CONFIG =
     \<lparr> retrieval = \<lparr> dense_top_k = 30, sparse_top_k = 30, fusion_top_k = 25,
                      score_threshold = 3 / 10 \<rparr>,
       reranking = \<lparr> batch_size = 5, max_candidates = 20, min_relevance_score = 3 \<rparr>,
       top_k_results = 5 \<rparr>"

section \<open>Pairwise reranker (reranker.py)\<close>

text \<open>
  The relevance oracle is \<^verbatim>\<open>self.llm.generate(prompt, max_tokens=10)\<close>. The prompt is
  built from the query and the two formatted candidates, so the oracle is a function of the
  query and the two candidates; it may answer differently at every call, so it also reads
  and writes a state of its own. It returns the response text or raises.
  The world threaded through the reranker holds that state and the number of
  \<^verbatim>\<open>generate\<close> calls made so far.
\<close>

type_synonym ('s, 'c) llm = "'s \<Rightarrow> string \<Rightarrow> 'c \<Rightarrow> 'c \<Rightarrow> (py_exception + string) \<times> 's"

record 's world =
  llm_state :: 's
  llm_calls :: nat

definition llm_generate ::
  "('s, 'c) llm \<Rightarrow> string \<Rightarrow> 'c \<Rightarrow> 'c \<Rightarrow> 's world \<Rightarrow> (py_exception + string) \<times> 's world" where
  "llm_generate llm query a b w =
     (case llm (llm_state w) query a b of
        (r, s') \<Rightarrow> (r, \<lparr> llm_state = s', llm_calls = Suc (llm_calls w) \<rparr>))"

text \<open>\<^verbatim>\<open>LLMReranker._compare_pair\<close>: the \<^verbatim>\<open>except Exception\<close> branch returns "A". The
  prompt is formatted before the \<^verbatim>\<open>try\<close>, from candidates whose fields have their declared
  types, so formatting raises nothing and is not part of the model.\<close>

definition compare_pair ::
  "('s, 'c) llm \<Rightarrow> string \<Rightarrow> 'c \<Rightarrow> 'c \<Rightarrow> 's world \<Rightarrow> string \<times> 's world" where
  "compare_pair llm query candidate_a candidate_b w =
     (case llm_generate llm query candidate_a candidate_b w of
        (Inl e, w') \<Rightarrow> (''A'', w')
      | (Inr response, w') \<Rightarrow>
          (let result = py_upper (py_strip response) in
           if CHR ''A'' \<in> set result \<and> CHR ''B'' \<notin> set result then (''A'', w')
           else if CHR ''B'' \<in> set result \<and> CHR ''A'' \<notin> set result then (''B'', w')
           else if startswith result ''A'' then (''A'', w')
           else if startswith result ''B'' then (''B'', w')
           else (''A'', w')))"

text \<open>\<^verbatim>\<open>ScoredCandidate\<close>, without the fields that \<^verbatim>\<open>rerank\<close> leaves at their defaults
  (the feature scores, \<^verbatim>\<open>final_score\<close> and \<^verbatim>\<open>rank\<close>).\<close>

record 'c ScoredCandidate =
  candidate :: 'c
  llm_relevance_score :: real
  llm_explanation :: string

record LLMReranker =
  config :: PipelineConfig
  num_passes :: int

text \<open>\<^verbatim>\<open>LLMReranker.__init__\<close>: the number of passes is fixed at construction.\<close>

definition LLMReranker_init :: "PipelineConfig \<Rightarrow> LLMReranker" where
  "LLMReranker_init cfg = \<lparr> config = cfg, num_passes = min (top_k_results cfg) 3 \<rparr>"

text \<open>
  The inner loop \<^verbatim>\<open>for i in range(len(ranked) - 1, 0, -1)\<close>: the first argument is
  the number of positions still to visit, so the equation for \<open>Suc j\<close> is the iteration
  \<open>i = j + 1\<close>, comparing \<open>ranked[i - 1]\<close> with \<open>ranked[i]\<close>. The loop starts at
  \<open>len(ranked) - 1\<close> and a swap keeps the length, so both reads are in range.
\<close>

fun bubble_inner ::
  "('s, 'c) llm \<Rightarrow> string \<Rightarrow> nat \<Rightarrow> 'c list \<times> nat \<times> 's world \<Rightarrow> 'c list \<times> nat \<times> 's world" where
  "bubble_inner llm query 0 st = st"
| "bubble_inner llm query (Suc j) (ranked, swaps, w) =
     (case compare_pair llm query (ranked ! j) (ranked ! Suc j) w of
        (winner, w') \<Rightarrow>
          if winner = ''B''
          then bubble_inner llm query j
                 (ranked[j := ranked ! Suc j, Suc j := ranked ! j], swaps + 1, w')
          else bubble_inner llm query j (ranked, swaps, w'))"

text \<open>The outer loop \<^verbatim>\<open>for pass_num in range(self.num_passes)\<close>.\<close>

fun bubble_passes ::
  "('s, 'c) llm \<Rightarrow> string \<Rightarrow> nat \<Rightarrow> 'c list \<times> 's world \<Rightarrow> 'c list \<times> 's world" where
  "bubble_passes llm query 0 st = st"
| "bubble_passes llm query (Suc p) (ranked, w) =
     (case bubble_inner llm query (length ranked - 1) (ranked, 0, w) of
        (ranked', swaps, w') \<Rightarrow> bubble_passes llm query p (ranked', w'))"

text \<open>\<^verbatim>\<open>LLMReranker.rerank\<close>.\<close>

definition rerank ::
  "LLMReranker \<Rightarrow> ('s, 'c) llm \<Rightarrow> string \<Rightarrow> 'c list \<Rightarrow> 's world
     \<Rightarrow> 'c ScoredCandidate list \<times> 's world" where
  "rerank self llm raw_query candidates w =
     (if length candidates \<le> 1
      then (map (\<lambda>(i, c). \<lparr> candidate = c, llm_relevance_score = 10 - real i,
                              llm_explanation = [] \<rparr>)
                (enumerate 0 candidates), w)
      else
        let candidates_to_rank = py_slice_to (max_candidates (reranking (config self))) candidates;
            query = raw_query
        in case bubble_passes llm query (nat (num_passes self)) (candidates_to_rank, w) of
             (ranked, w') \<Rightarrow>
               (map (\<lambda>(i, c).
                      \<lparr> candidate = c,
                        llm_relevance_score =
                          10 - real i * 9 / real_of_int (max (int (length ranked) - 1) 1),
                        llm_explanation =
                          ''Ranked #'' @ str_nat (i + 1) @ '' by pairwise comparison'' \<rparr>)
                    (enumerate 0 ranked), w'))"

text \<open>A ground-truth comparator over a linearly ordered candidate type: \<open>b < a\<close> reads
  "\<open>b\<close> is strictly more relevant than \<open>a\<close>", so the true order is ascending.\<close>

definition ground_truth_llm :: "(unit, 'c::linorder) llm" where
  "ground_truth_llm s query a b = (Inr (if b < a then ''B'' else ''A''), s)"





text \<open>One back-to-front pass as a function of the list alone, for a truthful oracle.\<close>

fun bpass :: "'c::linorder list \<Rightarrow> 'c list" where
  "bpass [] = []"
| "bpass [x] = [x]"
| "bpass (x # xs) =
     (case bpass xs of
        [] \<Rightarrow> [x]
      | y # ys \<Rightarrow> if y < x then y # x # ys else x # y # ys)"

section \<open>Insertion-ordered dictionaries\<close>

text \<open>A Python dict keeps its keys in insertion order; it is an association list with
  distinct keys. \<^verbatim>\<open>d[k] = v\<close> overwrites in place or appends; \<^verbatim>\<open>d[k] += v\<close> on a
  \<^verbatim>\<open>defaultdict(float)\<close> starts a missing key at \<open>0.0\<close>.\<close>

fun dict_set :: "('k \<times> 'v) list \<Rightarrow> 'k \<Rightarrow> 'v \<Rightarrow> ('k \<times> 'v) list" where
  "dict_set [] k v = [(k, v)]"
| "dict_set ((k', x) # d) k v = (if k' = k then (k', v) # d else (k', x) # dict_set d k v)"

fun dict_add :: "('k \<times> real) list \<Rightarrow> 'k \<Rightarrow> real \<Rightarrow> ('k \<times> real) list" where
  "dict_add [] k v = [(k, 0 + v)]"
| "dict_add ((k', x) # d) k v = (if k' = k then (k', x + v) # d else (k', x) # dict_add d k v)"

text \<open>Reading a \<^verbatim>\<open>defaultdict(float)\<close>: a missing key reads as \<open>0.0\<close>.\<close>

definition lookup0 :: "('k \<times> real) list \<Rightarrow> 'k \<Rightarrow> real" where
  "lookup0 d k = (case map_of d k of None \<Rightarrow> 0 | Some x \<Rightarrow> x)"

text \<open>\<^verbatim>\<open>sorted(d.items(), key=lambda x: x[1], reverse=True)\<close>: a stable sort, equal
  scores keep the order of the dict.\<close>

definition py_sorted_desc :: "('k \<times> real) list \<Rightarrow> ('k \<times> real) list" where
  "py_sorted_desc items = sort_key (\<lambda>x. - snd x) items"

section \<open>Sparse index (retriever.py, BM25Index)\<close>

text \<open>The fields \<^verbatim>\<open>k1\<close>, \<^verbatim>\<open>b\<close> and \<^verbatim>\<open>N\<close> are \<open>k1_param\<close>, \<open>b_param\<close> and \<open>N_docs\<close>.\<close>

record BM25Index =
  k1_param :: real
  b_param :: real
  documents :: "(string \<times> string list) list"
  doc_lengths :: "(string \<times> nat) list"
  avg_doc_length :: real
  doc_freqs :: "(string \<times> nat) list"
  inverted_index :: "(string \<times> string list) list"
  N_docs :: nat

definition BM25Index_init :: "real \<Rightarrow> real \<Rightarrow> BM25Index" where
  "BM25Index_init k1' b' =
     \<lparr> k1_param = k1', b_param = b', documents = [], doc_lengths = [], avg_doc_length = 0,
       doc_freqs = [], inverted_index = [], N_docs = 0 \<rparr>"

text \<open>\<^verbatim>\<open>BM25Index._tokenize\<close>: \<^verbatim>\<open>re.findall(r'\b\w+\b', text.lower())\<close> returns the maximal
  runs of word characters (letters, digits, underscore).\<close>

definition is_word_char :: "char \<Rightarrow> bool" where
  "is_word_char c =
     (let n = (of_char c :: nat) in
      (48 \<le> n \<and> n \<le> 57) \<or> (65 \<le> n \<and> n \<le> 90) \<or> n = 95 \<or> (97 \<le> n \<and> n \<le> 122))"

fun findall_words :: "string \<Rightarrow> string \<Rightarrow> string list" where
  "findall_words cur [] = (if cur = [] then [] else [cur])"
| "findall_words cur (c # cs) =
     (if is_word_char c then findall_words (cur @ [c]) cs
      else (if cur = [] then [] else [cur]) @ findall_words [] cs)"

definition tokenize :: "string \<Rightarrow> string list" where
  "tokenize text = findall_words [] (py_lower text)"

text \<open>A posting list is a Python set of document ids, kept here as a duplicate-free list.\<close>

definition set_add :: "'a list \<Rightarrow> 'a \<Rightarrow> 'a list" where
  "set_add s x = (if x \<in> set s then s else s @ [x])"

text \<open>The body of \<^verbatim>\<open>for token in unique_tokens\<close> in \<^verbatim>\<open>add_document\<close>: both containers
  are defaultdicts, a missing count is 0 and a missing posting list is the empty set.\<close>

definition index_token ::
  "string \<Rightarrow> string \<Rightarrow> (string \<times> nat) list \<times> (string \<times> string list) list
     \<Rightarrow> (string \<times> nat) list \<times> (string \<times> string list) list" where
  "index_token doc_id token st =
     (case st of (df, ix) \<Rightarrow>
        (dict_set df token ((case map_of df token of None \<Rightarrow> 0 | Some n \<Rightarrow> n) + 1),
         dict_set ix token
           (set_add (case map_of ix token of None \<Rightarrow> [] | Some s \<Rightarrow> s) doc_id)))"

text \<open>\<^verbatim>\<open>BM25Index.add_document\<close>. The division is by \<open>N + 1 > 0\<close>.\<close>

definition add_document :: "BM25Index \<Rightarrow> string \<Rightarrow> string \<Rightarrow> BM25Index" where
  "add_document self doc_id text =
     (let tokens = tokenize text;
          documents' = dict_set (documents self) doc_id tokens;
          doc_lengths' = dict_set (doc_lengths self) doc_id (length tokens);
          unique_tokens = remdups tokens;
          st = fold (index_token doc_id) unique_tokens (doc_freqs self, inverted_index self);
          N' = N_docs self + 1
      in self \<lparr> documents := documents', doc_lengths := doc_lengths',
                doc_freqs := fst st, inverted_index := snd st, N_docs := N',
                avg_doc_length := real (sum_list (map snd doc_lengths')) / real N' \<rparr>)"

text \<open>\<^verbatim>\<open>BM25Index._idf\<close>; \<^verbatim>\<open>math.log\<close> raises ValueError outside its domain.\<close>

definition idf :: "BM25Index \<Rightarrow> string \<Rightarrow> py_exception + real" where
  "idf self term =
     (let df = (case map_of (doc_freqs self) term of None \<Rightarrow> 0 | Some n \<Rightarrow> n) in
      if df = 0 then Inr 0
      else
        let x = (real_of_int (int (N_docs self) - int df) + 1 / 2) / (real df + 1 / 2) + 1
        in if x \<le> 0 then Inl ValueError else Inr (ln x))"

text \<open>The loop \<^verbatim>\<open>for doc_id in self.inverted_index[token]\<close> of \<^verbatim>\<open>search\<close>, over the ids
  in the order the set yields them.\<close>

fun score_postings ::
  "BM25Index \<Rightarrow> string \<Rightarrow> real \<Rightarrow> string list \<Rightarrow> (string \<times> real) list
     \<Rightarrow> py_exception + (string \<times> real) list" where
  "score_postings self token idf_v [] scores = Inr scores"
| "score_postings self token idf_v (doc_id # rest) scores =
     (case map_of (documents self) doc_id of
        None \<Rightarrow> Inl KeyError
      | Some doc_tokens \<Rightarrow>
          (case map_of (doc_lengths self) doc_id of
             None \<Rightarrow> Inl KeyError
           | Some doc_len \<Rightarrow>
               let tf = real (count_list doc_tokens token);
                   numerator = tf * (k1_param self + 1)
               in if avg_doc_length self = 0 then Inl ZeroDivisionError
                  else
                    let denominator =
                          tf + k1_param self * (1 - b_param self + b_param self * real doc_len / avg_doc_length self)
                    in if denominator = 0 then Inl ZeroDivisionError
                       else score_postings self token idf_v rest
                              (dict_add scores doc_id (idf_v * numerator / denominator))))"

text \<open>The loop \<^verbatim>\<open>for token in query_tokens\<close>. The iteration order of a Python set of
  strings is not fixed by the program; \<open>set_order\<close> maps a posting list to the order in
  which its ids are yielded.\<close>

fun score_tokens ::
  "(string list \<Rightarrow> string list) \<Rightarrow> BM25Index \<Rightarrow> string list \<Rightarrow> (string \<times> real) list
     \<Rightarrow> py_exception + (string \<times> real) list" where
  "score_tokens set_order self [] scores = Inr scores"
| "score_tokens set_order self (token # rest) scores =
     (case map_of (inverted_index self) token of
        None \<Rightarrow> score_tokens set_order self rest scores
      | Some posting \<Rightarrow>
          (case idf self token of
             Inl e \<Rightarrow> Inl e
           | Inr idf_v \<Rightarrow>
               (case score_postings self token idf_v (set_order posting) scores of
                  Inl e \<Rightarrow> Inl e
                | Inr scores' \<Rightarrow> score_tokens set_order self rest scores')))"

text \<open>\<^verbatim>\<open>BM25Index.search\<close>.\<close>

definition search ::
  "(string list \<Rightarrow> string list) \<Rightarrow> BM25Index \<Rightarrow> string \<Rightarrow> int
     \<Rightarrow> py_exception + (string \<times> real) list" where
  "search set_order self query top_k =
     (case score_tokens set_order self (tokenize query) [] of
        Inl e \<Rightarrow> Inl e
      | Inr scores \<Rightarrow> Inr (py_slice_to top_k (py_sorted_desc scores)))"

text \<open>An index built by adding the documents of a list in order.\<close>

definition index_of :: "real \<Rightarrow> real \<Rightarrow> (string \<times> string) list \<Rightarrow> BM25Index" where
  "index_of k1' b' docs =
     fold (\<lambda>(doc_id, text) self. add_document self doc_id text) docs (BM25Index_init k1' b')"

text \<open>Notions used to state what the index holds and what a search computes: the ids of
  the documents whose text contains a token, in the order the documents were added; the
  tokens of a document of the corpus; the BM25 weight of a term frequency; the IDF of a
  document frequency; and the order in which ids are first seen in a sequence.\<close>

definition docs_with :: "(string \<times> string) list \<Rightarrow> string \<Rightarrow> string list" where
  "docs_with docs token = map fst (filter (\<lambda>(doc_id, text). token \<in> set (tokenize text)) docs)"

definition tokens_of :: "(string \<times> string) list \<Rightarrow> string \<Rightarrow> string list" where
  "tokens_of docs doc_id = (case map_of docs doc_id of None \<Rightarrow> [] | Some text \<Rightarrow> tokenize text)"

definition bm25_weight :: "real \<Rightarrow> real \<Rightarrow> real \<Rightarrow> nat \<Rightarrow> nat \<Rightarrow> real" where
  "bm25_weight k1' b' avg tf doc_len =
     real tf * (k1' + 1) / (real tf + k1' * (1 - b' + b' * real doc_len / avg))"

definition idf_value :: "nat \<Rightarrow> nat \<Rightarrow> real" where
  "idf_value n df = ln ((real_of_int (int n - int df) + 1 / 2) / (real df + 1 / 2) + 1)"

text \<open>What one query token adds to the score of one document of the corpus.\<close>

definition term_score ::
  "real \<Rightarrow> real \<Rightarrow> (string \<times> string) list \<Rightarrow> real \<Rightarrow> string \<Rightarrow> string \<Rightarrow> real" where
  "term_score k1' b' docs avg token doc_id =
     (if doc_id \<in> set (docs_with docs token)
      then idf_value (length docs) (length (docs_with docs token))
           * bm25_weight k1' b' avg (count_list (tokens_of docs doc_id) token)
               (length (tokens_of docs doc_id))
      else 0)"

definition first_seen :: "'a list \<Rightarrow> 'a list" where
  "first_seen xs = fold (\<lambda>x s. set_add s x) xs []"

text \<open>The ids that a search touches, in the order it touches them: token by token in query
  order, and for each token of the index the ids of its posting set in the order the set
  yields them.\<close>

definition touched :: "(string list \<Rightarrow> string list) \<Rightarrow> BM25Index \<Rightarrow> string list \<Rightarrow> string list" where
  "touched set_order self query_tokens =
     concat (map (\<lambda>token. case map_of (inverted_index self) token of
                             None \<Rightarrow> [] | Some posting \<Rightarrow> set_order posting)
                 query_tokens)"

section \<open>Rank fusion and the hybrid retriever (retriever.py, HybridRetriever)\<close>

text \<open>A search hit is the dict \<^verbatim>\<open>{'id': ..., 'score': ...}\<close>; fusion reads the id only.\<close>

record search_result =
  result_id :: string
  result_score :: real

text \<open>One loop \<^verbatim>\<open>for rank, result in enumerate(results, 1)\<close> of
  \<^verbatim>\<open>_reciprocal_rank_fusion\<close>; \<^verbatim>\<open>1.0 / (k + rank)\<close> raises when \<open>k + rank = 0\<close>.\<close>

fun rrf_accumulate ::
  "int \<Rightarrow> int \<Rightarrow> search_result list \<Rightarrow> (string \<times> real) list
     \<Rightarrow> py_exception + (string \<times> real) list" where
  "rrf_accumulate k rank [] fused_scores = Inr fused_scores"
| "rrf_accumulate k rank (result # rest) fused_scores =
     (if k + rank = 0 then Inl ZeroDivisionError
      else rrf_accumulate k (rank + 1) rest
             (dict_add fused_scores (result_id result) (1 / real_of_int (k + rank))))"

text \<open>\<^verbatim>\<open>HybridRetriever._reciprocal_rank_fusion\<close>; \<open>cfg\<close> is \<^verbatim>\<open>self.config\<close>.\<close>

definition reciprocal_rank_fusion ::
  "PipelineConfig \<Rightarrow> search_result list \<Rightarrow> search_result list \<Rightarrow> int
     \<Rightarrow> py_exception + (string \<times> real) list" where
  "reciprocal_rank_fusion cfg dense_results sparse_results k =
     (case rrf_accumulate k 1 dense_results [] of
        Inl e \<Rightarrow> Inl e
      | Inr fused \<Rightarrow>
          (case rrf_accumulate k 1 sparse_results fused of
             Inl e \<Rightarrow> Inl e
           | Inr fused_scores \<Rightarrow>
               Inr (py_slice_to (fusion_top_k (retrieval cfg)) (py_sorted_desc fused_scores))))"

text \<open>The contribution of one ranked list to an id, as the contract words it: the sum of
  \<open>1 / (k + rank)\<close> over the 1-based ranks at which the id occurs in the list.\<close>

definition rank_contribution :: "int \<Rightarrow> search_result list \<Rightarrow> string \<Rightarrow> real" where
  "rank_contribution k results doc_id =
     (\<Sum>(rank, r)\<leftarrow>enumerate 1 results.
        if result_id r = doc_id then 1 / real_of_int (k + int rank) else 0)"

text \<open>A stored point of the vector store: its id (already a string) and its payload.\<close>

record payload =
  service_name :: string
  description :: string
  short_description :: string
  provider :: string
  category :: string
  service_type :: string
  features :: "string list"
  use_cases :: "string list"
  tags :: "string list"
  specs_database_engine :: "string option"

record point =
  point_id :: string
  point_payload :: payload

fun py_join :: "string \<Rightarrow> string list \<Rightarrow> string" where
  "py_join sep [] = []"
| "py_join sep [p] = p"
| "py_join sep (p # ps) = p @ sep @ py_join sep ps"

text \<open>\<^verbatim>\<open>HybridRetriever._create_search_text\<close>.\<close>

definition create_search_text :: "payload \<Rightarrow> string" where
  "create_search_text pl =
     (let parts = [service_name pl, description pl, short_description pl, provider pl,
                   category pl, service_type pl]
                  @ features pl @ use_cases pl @ tags pl
                  @ (case specs_database_engine pl of
                       None \<Rightarrow> []
                     | Some e \<Rightarrow> if e = [] then [] else [e])
      in py_join '' '' (filter (\<lambda>p. p \<noteq> []) parts))"

text \<open>What the constructor prints, line by line.\<close>

datatype log_line =
    Building_index
  | Index_built nat
  | Failed_to_build py_exception
  | Retriever_initialized

type_synonym scroll = "string option \<Rightarrow> py_exception + point list \<times> string option"

text \<open>
  The \<^verbatim>\<open>while True\<close> loop of \<^verbatim>\<open>_build_bm25_index\<close>. \<open>scroll offset\<close> is
  \<^verbatim>\<open>self.qdrant.scroll(..., offset=offset)\<close>: it returns a page and the next offset, or
  raises. The index is mutated in place, so when a call raises, the documents of the earlier
  pages are already in it: the loop returns the index reached together with either the
  exception or the number of documents indexed. A store that never stops handing out
  offsets keeps the loop running: the result is then \<open>None\<close>.
\<close>

partial_function (option) scroll_loop ::
  "scroll \<Rightarrow> string option \<Rightarrow> BM25Index \<Rightarrow> nat \<Rightarrow> (BM25Index \<times> (py_exception + nat)) option" where
  "scroll_loop scroll_fn offset index total_indexed =
     (case scroll_fn offset of
        Inl e \<Rightarrow> Some (index, Inl e)
      | Inr (results, offset') \<Rightarrow>
          if results = [] then Some (index, Inr total_indexed)
          else
            let index' = fold (\<lambda>pt ix. add_document ix (point_id pt)
                                          (create_search_text (point_payload pt)))
                              results index;
                total' = total_indexed + length results
            in if offset' = None then Some (index', Inr total')
               else scroll_loop scroll_fn offset' index' total')"

record HybridRetriever =
  retriever_config :: PipelineConfig
  bm25_index :: BM25Index
  console :: "log_line list"

text \<open>\<^verbatim>\<open>HybridRetriever._build_bm25_index\<close>: the \<^verbatim>\<open>except Exception\<close> branch prints and
  returns normally.\<close>

definition build_bm25_index :: "scroll \<Rightarrow> HybridRetriever \<Rightarrow> HybridRetriever option" where
  "build_bm25_index scroll_fn self =
     (case scroll_loop scroll_fn None (bm25_index self) 0 of
        None \<Rightarrow> None
      | Some (index, Inr total_indexed) \<Rightarrow>
          Some (self \<lparr> bm25_index := index,
                       console := console self @ [Building_index, Index_built total_indexed] \<rparr>)
      | Some (index, Inl e) \<Rightarrow>
          Some (self \<lparr> bm25_index := index,
                       console := console self @ [Building_index, Failed_to_build e] \<rparr>))"

text \<open>\<^verbatim>\<open>HybridRetriever.__init__\<close>, from the creation of the index on. \<open>Inl\<close> is an
  exception leaving the constructor, \<open>None\<close> a constructor that does not return.\<close>

definition HybridRetriever_init ::
  "PipelineConfig \<Rightarrow> scroll \<Rightarrow> (py_exception + HybridRetriever) option" where
  "HybridRetriever_init cfg scroll_fn =
     (case build_bm25_index scroll_fn
             \<lparr> retriever_config = cfg, bm25_index = BM25Index_init (3 / 2) (3 / 4),
               console = [] \<rparr> of
        None \<Rightarrow> None
      | Some self \<Rightarrow> Some (Inr (self \<lparr> console := console self @ [Retriever_initialized] \<rparr>)))"

text \<open>\<^verbatim>\<open>HybridRetriever._sparse_search\<close>.\<close>

definition sparse_search ::
  "(string list \<Rightarrow> string list) \<Rightarrow> HybridRetriever \<Rightarrow> string \<Rightarrow> search_result list" where
  "sparse_search set_order self query =
     (case search set_order (bm25_index self) query
             (sparse_top_k (retrieval (retriever_config self))) of
        Inl e \<Rightarrow> []
      | Inr results \<Rightarrow>
          map (\<lambda>(doc_id, score). \<lparr> result_id = doc_id, result_score = score \<rparr>) results)"

text \<open>A vector store that cannot be reached: every scroll raises.\<close>

definition unreachable_store :: scroll where
  "unreachable_store offset = Inl (TransportError ''connection refused'')"

text \<open>A vector store that hands out one page of one point and then raises.\<close>

definition first_point :: point where
  "first_point =
     \<lparr> point_id = ''1'',
       point_payload =
         \<lparr> service_name = ''RDS PostgreSQL'', description = ''managed database'',
           short_description = [], provider = ''aws'', category = ''database'',
           service_type = ''rds'', features = [''Automated backups''], use_cases = [],
           tags = [], specs_database_engine = Some ''PostgreSQL'' \<rparr> \<rparr>"

definition flaky_store :: scroll where
  "flaky_store offset =
     (if offset = None then Inr ([first_point], Some ''100'')
      else Inl (TransportError ''connection reset''))"


section \<open>The reranker: every oracle\<close>

lemma compare_pair_calls: "llm_calls (snd (compare_pair llm q a b w)) = Suc (llm_calls w)"
  by (simp add: compare_pair_def llm_generate_def Let_def split: prod.splits sum.splits)

lemma bubble_inner_calls:
  "llm_calls (snd (snd (bubble_inner llm q j (ranked, swaps, w)))) = llm_calls w + j"
proof (induction j arbitrary: ranked swaps w)
  case 0
  show ?case by simp
next
  case (Suc j)
  obtain winner w' where cp: "compare_pair llm q (ranked ! j) (ranked ! Suc j) w = (winner, w')"
    by (cases "compare_pair llm q (ranked ! j) (ranked ! Suc j) w")
  have "llm_calls w' = Suc (llm_calls w)"
    using compare_pair_calls [of llm q "ranked ! j" "ranked ! Suc j" w] cp by simp
  then show ?case using cp Suc.IH by simp
qed

lemma bubble_inner_mset:
  "j < length ranked \<Longrightarrow> mset (fst (bubble_inner llm q j (ranked, swaps, w))) = mset ranked"
proof (induction j arbitrary: ranked swaps w)
  case 0
  show ?case by simp
next
  case (Suc j)
  obtain winner w' where cp: "compare_pair llm q (ranked ! j) (ranked ! Suc j) w = (winner, w')"
    by (cases "compare_pair llm q (ranked ! j) (ranked ! Suc j) w")
  have sw: "mset (ranked[j := ranked ! Suc j, Suc j := ranked ! j]) = mset ranked"
    using Suc.prems by (simp add: mset_swap)
  show ?case
  proof (cases "winner = ''B''")
    case True
    then show ?thesis using cp Suc.IH [of "ranked[j := ranked ! Suc j, Suc j := ranked ! j]"] Suc.prems sw
      by simp
  next
    case False
    then show ?thesis using cp Suc.IH [of ranked] Suc.prems by simp
  qed
qed

lemma bubble_pass_mset:
  "mset (fst (bubble_inner llm q (length ranked - 1) (ranked, swaps, w))) = mset ranked"
proof (cases ranked)
  case Nil
  then show ?thesis by simp
next
  case (Cons x xs)
  then show ?thesis by (intro bubble_inner_mset) simp
qed

lemma bubble_passes_mset:
  "mset (fst (bubble_passes llm q p (ranked, w))) = mset ranked"
proof (induction p arbitrary: ranked w)
  case 0
  show ?case by simp
next
  case (Suc p)
  obtain r' s' w' where bi: "bubble_inner llm q (length ranked - 1) (ranked, 0, w) = (r', s', w')"
    by (cases "bubble_inner llm q (length ranked - 1) (ranked, 0, w)")
  have "mset r' = mset ranked" using bubble_pass_mset [of llm q ranked 0 w] bi by simp
  then show ?case using bi Suc.IH [of r' w'] by simp
qed

lemma bubble_passes_calls:
  "llm_calls (snd (bubble_passes llm q p (ranked, w))) = llm_calls w + p * (length ranked - 1)"
proof (induction p arbitrary: ranked w)
  case 0
  show ?case by simp
next
  case (Suc p)
  obtain r' s' w' where bi: "bubble_inner llm q (length ranked - 1) (ranked, 0, w) = (r', s', w')"
    by (cases "bubble_inner llm q (length ranked - 1) (ranked, 0, w)")
  have m: "mset r' = mset ranked" using bubble_pass_mset [of llm q ranked 0 w] bi by simp
  have len: "length r' = length ranked" using m by (metis size_mset)
  have c: "llm_calls w' = llm_calls w + (length ranked - 1)"
    using bubble_inner_calls [of llm q "length ranked - 1" ranked 0 w] bi by simp
  show ?case using bi Suc.IH [of r' w'] len c by simp
qed

lemma map_candidate_enumerate:
  "(\<And>i c. candidate (h i c) = c) \<Longrightarrow> map (candidate \<circ> case_prod h) (enumerate n xs) = xs"
  by (induction xs arbitrary: n) auto

lemma rerank_candidates:
  "map candidate (fst (rerank self llm q cands w)) =
     (if length cands \<le> 1 then cands
      else fst (bubble_passes llm q (nat (num_passes self))
                 (py_slice_to (max_candidates (reranking (config self))) cands, w)))"
  by (simp add: rerank_def Let_def map_candidate_enumerate split: prod.splits)

lemma rerank_world:
  "snd (rerank self llm q cands w) =
     (if length cands \<le> 1 then w
      else snd (bubble_passes llm q (nat (num_passes self))
                 (py_slice_to (max_candidates (reranking (config self))) cands, w)))"
  by (simp add: rerank_def Let_def split: prod.splits)

section \<open>The reranker: a truthful oracle\<close>

lemma bpass_mset: "mset (bpass xs) = mset xs"
  by (induction xs rule: bpass.induct) (auto split: list.splits)

lemma bpass_length: "length (bpass xs) = length xs"
  by (metis bpass_mset size_mset)

lemma bpass_Nil_iff: "bpass xs = [] \<longleftrightarrow> xs = []"
  using bpass_length [of xs] by (metis length_0_conv)

lemma bpass_snoc2:
  "bpass (xs @ [a, c]) = (if c < a then bpass (xs @ [c]) @ [a] else bpass (xs @ [a]) @ [c])"
proof (induction xs)
  case Nil
  show ?case by simp
next
  case (Cons x xs)
  obtain y ys where m: "bpass (xs @ [if c < a then c else a]) = y # ys"
    using bpass_Nil_iff [of "xs @ [if c < a then c else a]"] by (cases "bpass (xs @ [if c < a then c else a])") auto
  have e1: "bpass (x # xs @ [a, c]) =
        (case bpass (xs @ [a, c]) of [] \<Rightarrow> [x] | y # ys \<Rightarrow> if y < x then y # x # ys else x # y # ys)"
    by (cases xs) simp_all
  have e2: "\<And>d. bpass (x # xs @ [d]) =
        (case bpass (xs @ [d]) of [] \<Rightarrow> [x] | y # ys \<Rightarrow> if y < x then y # x # ys else x # y # ys)"
    by (cases xs) simp_all
  show ?case
    using m Cons.IH e1 e2 by (auto split: if_splits)
qed

lemma bubble_inner_truthful:
  fixes ranked :: "'c::linorder list"
  assumes t: "\<And>w a c. fst (compare_pair llm q a c w) = (if c < a then ''B'' else ''A'')"
  shows "j < length ranked \<Longrightarrow>
     fst (bubble_inner llm q j (ranked, swaps, w)) = bpass (take (Suc j) ranked) @ drop (Suc j) ranked"
proof (induction j arbitrary: ranked swaps w)
  case 0
  then show ?case by (cases ranked) simp_all
next
  case (Suc j)
  let ?a = "ranked ! j" and ?c = "ranked ! Suc j"
  obtain winner w' where cp: "compare_pair llm q ?a ?c w = (winner, w')"
    by (cases "compare_pair llm q ?a ?c w")
  have win: "winner = (if ?c < ?a then ''B'' else ''A'')"
    using t [of ?a ?c w] cp by simp
  have split: "take (Suc (Suc j)) ranked = take j ranked @ [?a, ?c]"
    using Suc.prems by (simp add: take_Suc_conv_app_nth)
  show ?case
  proof (cases "?c < ?a")
    case True
    let ?r = "ranked[j := ?c, Suc j := ?a]"
    have tk: "take (Suc j) ?r = take j ranked @ [?c]"
      using Suc.prems by (simp add: take_Suc_conv_app_nth)
    have dr: "drop (Suc j) ?r = ?a # drop (Suc (Suc j)) ranked"
      using Suc.prems by (simp add: Cons_nth_drop_Suc [symmetric] drop_update_swap)
    have "fst (bubble_inner llm q (Suc j) (ranked, swaps, w)) = fst (bubble_inner llm q j (?r, swaps + 1, w'))"
      using cp win True by simp
    also have "\<dots> = bpass (take (Suc j) ?r) @ drop (Suc j) ?r"
      using Suc.IH [of ?r] Suc.prems by simp
    also have "\<dots> = bpass (take (Suc (Suc j)) ranked) @ drop (Suc (Suc j)) ranked"
      using True by (simp only: tk dr split bpass_snoc2) simp
    finally show ?thesis .
  next
    case False
    have "fst (bubble_inner llm q (Suc j) (ranked, swaps, w)) = fst (bubble_inner llm q j (ranked, swaps, w'))"
      using cp win False by simp
    also have "\<dots> = bpass (take (Suc j) ranked) @ drop (Suc j) ranked"
      using Suc.IH [of ranked] Suc.prems by simp
    also have "\<dots> = bpass (take (Suc (Suc j)) ranked) @ drop (Suc (Suc j)) ranked"
      using False Suc.prems
      by (simp only: split bpass_snoc2) (simp add: take_Suc_conv_app_nth Cons_nth_drop_Suc)
    finally show ?thesis .
  qed
qed

lemma bubble_pass_truthful:
  fixes ranked :: "'c::linorder list"
  assumes t: "\<And>w a c. fst (compare_pair llm q a c w) = (if c < a then ''B'' else ''A'')"
  shows "fst (bubble_inner llm q (length ranked - 1) (ranked, swaps, w)) = bpass ranked"
proof (cases ranked)
  case Nil
  then show ?thesis by simp
next
  case (Cons x xs)
  then have "length ranked - 1 < length ranked" by simp
  from bubble_inner_truthful [OF t this, of swaps w] Cons show ?thesis by simp
qed

lemma bubble_passes_truthful:
  fixes ranked :: "'c::linorder list"
  assumes t: "\<And>w a c. fst (compare_pair llm q a c w) = (if c < a then ''B'' else ''A'')"
  shows "fst (bubble_passes llm q p (ranked, w)) = (bpass ^^ p) ranked"
proof (induction p arbitrary: ranked w)
  case 0
  show ?case by simp
next
  case (Suc p)
  obtain r' s' w' where bi: "bubble_inner llm q (length ranked - 1) (ranked, 0, w) = (r', s', w')"
    by (cases "bubble_inner llm q (length ranked - 1) (ranked, 0, w)")
  have "r' = bpass ranked" using bubble_pass_truthful [OF t, of ranked 0 w] bi by simp
  then show ?case using bi Suc.IH [of r' w'] by (simp add: funpow_swap1)
qed

lemma bpass_hd_le: "x \<in> set xs \<Longrightarrow> hd (bpass xs) \<le> x"
proof (induction xs arbitrary: x rule: bpass.induct)
  case 1
  then show ?case by simp
next
  case (2 y)
  then show ?case by simp
next
  case (3 y v va)
  obtain z zs where b: "bpass (v # va) = z # zs"
    using bpass_Nil_iff [of "v # va"] by (cases "bpass (v # va)") auto
  show ?case
  proof (cases "x = y")
    case True
    then show ?thesis using b by auto
  next
    case False
    then have "x \<in> set (v # va)" using "3.prems" by simp
    then have "z \<le> x" using "3.IH" [of x] b by simp
    then show ?thesis using b by auto
  qed
qed

lemma bpass_least_first:
  "\<forall>y \<in> set xs. x \<le> y \<Longrightarrow> bpass (x # xs) = x # bpass xs"
proof (cases xs)
  case Nil
  then show ?thesis by simp
next
  case (Cons v va)
  assume le: "\<forall>y \<in> set xs. x \<le> y"
  obtain z zs where b: "bpass (v # va) = z # zs"
    using bpass_Nil_iff [of "v # va"] by (cases "bpass (v # va)") auto
  have "z \<in> set (v # va)"
    using bpass_mset [of "v # va"] b by (metis list.set_intros(1) set_mset_mset)
  then have "x \<le> z" using le Cons by auto
  then show ?thesis using b Cons by auto
qed

lemma bpass_sorted_prefix:
  "sorted pre \<Longrightarrow> \<forall>p \<in> set pre. \<forall>z \<in> set zs. p \<le> z \<Longrightarrow> bpass (pre @ zs) = pre @ bpass zs"
proof (induction pre)
  case Nil
  show ?case by simp
next
  case (Cons p pre)
  have "\<forall>y \<in> set (pre @ zs). p \<le> y" using Cons.prems by auto
  then have "bpass (p # (pre @ zs)) = p # bpass (pre @ zs)" by (rule bpass_least_first)
  then show ?case using Cons by simp
qed

lemma sorted_prefix_is_take_sort:
  assumes "sorted pre" "\<forall>p \<in> set pre. \<forall>z \<in> set zs. p \<le> z"
  shows "take (length pre) (sort (pre @ zs)) = pre"
proof -
  have "sorted (pre @ sort zs)" using assms by (simp add: sorted_append)
  moreover have "mset (pre @ sort zs) = mset (pre @ zs)" by simp
  ultimately have "sort (pre @ zs) = pre @ sort zs"
    by (metis properties_for_sort)
  then show ?thesis by simp
qed

lemma bpass_funpow_prefix:
  "\<exists>zs. (bpass ^^ k) xs = take k (sort xs) @ zs \<and> mset zs = mset (drop k (sort xs))"
proof (induction k)
  case 0
  show ?case by simp
next
  case (Suc k)
  let ?S = "sort xs"
  obtain zs where eq: "(bpass ^^ k) xs = take k ?S @ zs" and ms: "mset zs = mset (drop k ?S)"
    using Suc.IH by blast
  have srt: "sorted (take k ?S)" by (simp add: sorted_wrt_take)
  have "sorted (take k ?S @ drop k ?S)" by simp
  then have le: "\<forall>p \<in> set (take k ?S). \<forall>z \<in> set (drop k ?S). p \<le> z"
    unfolding sorted_append by blast
  have setzs: "set zs = set (drop k ?S)" using ms by (metis set_mset_mset)
  have step: "(bpass ^^ Suc k) xs = take k ?S @ bpass zs"
    using eq bpass_sorted_prefix [OF srt, of zs] le setzs by simp
  show ?case
  proof (cases "k < length xs")
    case False
    then have "drop k ?S = []" by simp
    then have "zs = []" using ms by simp
    moreover have "take (Suc k) ?S = take k ?S" using False by simp
    ultimately show ?thesis using step False by simp
  next
    case True
    then have kS: "k < length ?S" by simp
    have dr: "drop k ?S = ?S ! k # drop (Suc k) ?S" using kS by (simp add: Cons_nth_drop_Suc)
    have "zs \<noteq> []" using ms dr by auto
    then obtain y ys where b: "bpass zs = y # ys"
      using bpass_Nil_iff [of zs] by (cases "bpass zs") auto
    have yin: "y \<in> set zs" using bpass_mset [of zs] b by (metis list.set_intros(1) set_mset_mset)
    have ymin: "\<forall>z \<in> set zs. y \<le> z" using bpass_hd_le [of _ zs] b by simp
    have "sorted (drop k ?S)" by (simp add: sorted_wrt_drop)
    then have hmin: "\<forall>z \<in> set (drop (Suc k) ?S). ?S ! k \<le> z" using dr by (metis sorted_simps(2))
    have "?S ! k \<in> set zs" using setzs dr by simp
    then have "y \<le> ?S ! k" using ymin by blast
    moreover have "?S ! k \<le> y" using yin setzs dr hmin by auto
    ultimately have y: "y = ?S ! k" by simp
    have "mset (y # ys) = mset zs" using bpass_mset [of zs] b by simp
    then have "mset ys = mset (drop (Suc k) ?S)" using ms dr y by simp
    moreover have "take (Suc k) ?S = take k ?S @ [y]" using kS y by (simp add: take_Suc_conv_app_nth)
    ultimately show ?thesis using step b by simp
  qed
qed

lemma bpass_funpow_take: "take k ((bpass ^^ k) xs) = take k (sort xs)"
proof -
  obtain zs where eq: "(bpass ^^ k) xs = take k (sort xs) @ zs" and ms: "mset zs = mset (drop k (sort xs))"
    using bpass_funpow_prefix by blast
  show ?thesis
  proof (cases "k \<le> length xs")
    case True
    then show ?thesis using eq by simp
  next
    case False
    then have "zs = []" using ms by simp
    then show ?thesis using eq by simp
  qed
qed





lemma ground_truth_llm_truthful:
  "fst (compare_pair ground_truth_llm q a c w) = (if c < a then ''B'' else ''A'')"
  by (simp add: compare_pair_def llm_generate_def ground_truth_llm_def py_upper_def py_strip_def
      upper_char_def is_space_def startswith_def)

lemma py_slice_to_length_le: "length (py_slice_to n xs) \<le> length xs"
  by (simp add: py_slice_to_def)

lemma py_slice_to_pos: "0 \<le> n \<Longrightarrow> py_slice_to n xs = take (nat n) xs"
  by (simp add: py_slice_to_def)

section \<open>Claims about the reranker\<close>

text \<open>
  C1 (as amended). Bubble-sort partial correctness: for every list of at least two candidates
  and every oracle whose verdict is "B" exactly when the right-hand candidate precedes the
  left-hand one in the true total order, after the \<open>p = num_passes\<close> back-to-front passes of
  \<^verbatim>\<open>rerank\<close> the first \<open>p\<close> positions of the output are the true top \<open>p\<close> items, in true
  order, of the list the passes run over, which is \<^verbatim>\<open>candidates[:max_candidates]\<close>.
  The statement needs no bound \<open>p \<le> n\<close>.
\<close>

theorem rerank_top_p_of_truncated:
  fixes candidates :: "'c::linorder list"
  assumes truthful: "\<forall>w a c. fst (compare_pair llm q a c w) = (if c < a then ''B'' else ''A'')"
    and n: "2 \<le> length candidates"
  shows "take (nat (num_passes self)) (map candidate (fst (rerank self llm q candidates w))) =
         take (nat (num_passes self))
           (sort (py_slice_to (max_candidates (reranking (config self))) candidates))"
proof -
  let ?p = "nat (num_passes self)"
  let ?xs = "py_slice_to (max_candidates (reranking (config self))) candidates"
  have t: "\<And>w a c. fst (compare_pair llm q a c w) = (if c < a then ''B'' else ''A'')"
    using truthful by blast
  have "map candidate (fst (rerank self llm q candidates w)) = fst (bubble_passes llm q ?p (?xs, w))"
    using n by (simp add: rerank_candidates)
  also have "\<dots> = (bpass ^^ ?p) ?xs"
    by (rule bubble_passes_truthful [OF t])
  finally show ?thesis
    by (simp only: bpass_funpow_take)
qed

text \<open>The theorem at four candidates under the default configuration (three passes).\<close>

theorem rerank_top_p_of_truncated_witness:
  "(\<forall>w (a::nat) c. fst (compare_pair ground_truth_llm ''db'' a c w) = (if c < a then ''B'' else ''A'')) \<and>
   2 \<le> length [4, 2, 3, 1 :: nat] \<and>
   take 3 (map candidate (fst (rerank (LLMReranker_init DEFAULT_CONFIG) ground_truth_llm ''db''
       [4, 2, 3, 1 :: nat] \<lparr> llm_state = (), llm_calls = 0 \<rparr>))) = [1, 2, 3]"
proof -
  have h1: "\<forall>w a c. fst (compare_pair ground_truth_llm ''db'' (a::nat) c w) = (if c < a then ''B'' else ''A'')"
    by (simp add: ground_truth_llm_truthful)
  have h2: "2 \<le> length [4, 2, 3, 1 :: nat]" by simp
  have p: "nat (num_passes (LLMReranker_init DEFAULT_CONFIG)) = 3"
    by (simp add: LLMReranker_init_def DEFAULT_CONFIG_def)
  have s: "take 3 (sort (py_slice_to (max_candidates (reranking (config (LLMReranker_init DEFAULT_CONFIG))))
              [4, 2, 3, 1 :: nat])) = [1, 2, 3]"
    by (simp add: LLMReranker_init_def DEFAULT_CONFIG_def py_slice_to_def)
  have c: "take 3 (map candidate (fst (rerank (LLMReranker_init DEFAULT_CONFIG) ground_truth_llm ''db''
       [4, 2, 3, 1 :: nat] \<lparr> llm_state = (), llm_calls = 0 \<rparr>))) = [1, 2, 3]"
    using rerank_top_p_of_truncated [OF h1 h2, of "LLMReranker_init DEFAULT_CONFIG" "\<lparr> llm_state = (), llm_calls = 0 \<rparr>"]
    unfolding p s .
  show ?thesis using h1 h2 c by blast
qed

text \<open>
  With 21 candidates under the default configuration (\<open>max_candidates = 20\<close>, three passes)
  and the most relevant candidate in the last place, the first three outputs are the top
  three of the first twenty candidates, not the top three of the list.
\<close>

theorem rerank_top_p_counterexample:
  "nat (num_passes (LLMReranker_init DEFAULT_CONFIG)) = 3 \<and>
   take 3 (map candidate (fst (rerank (LLMReranker_init DEFAULT_CONFIG) ground_truth_llm ''db''
     [1, 2, 3, 4, 5, 6, 7, 8, 9, 10, 11, 12, 13, 14, 15, 16, 17, 18, 19, 20, 0 :: nat]
     \<lparr> llm_state = (), llm_calls = 0 \<rparr>))) = [1, 2, 3] \<and>
   take 3 (sort [1, 2, 3, 4, 5, 6, 7, 8, 9, 10, 11, 12, 13, 14, 15, 16, 17, 18, 19, 20, 0 :: nat])
     = [0, 1, 2]"
  by code_simp




text \<open>
  C6. Exact oracle call count: when the list left after truncation to \<open>max_candidates\<close> has
  \<open>n \<ge> 2\<close> entries, \<^verbatim>\<open>rerank\<close> makes exactly \<open>num_passes * (n - 1)\<close> oracle calls, with
  \<open>num_passes = min top_k_results 3\<close> as set by the constructor (a negative value runs no
  pass); with 0 or 1 candidates it returns with the world untouched, so with no oracle call.
\<close>

theorem rerank_oracle_call_count:
  "(2 \<le> length (py_slice_to (max_candidates (reranking cfg)) candidates) \<longrightarrow>
      llm_calls (snd (rerank (LLMReranker_init cfg) llm q candidates w)) =
        llm_calls w + nat (min (top_k_results cfg) 3)
                        * (length (py_slice_to (max_candidates (reranking cfg)) candidates) - 1)) \<and>
   (length candidates \<le> 1 \<longrightarrow> snd (rerank (LLMReranker_init cfg) llm q candidates w) = w)"
proof -
  have "2 \<le> length candidates" if "2 \<le> length (py_slice_to (max_candidates (reranking cfg)) candidates)"
    using that py_slice_to_length_le [of "max_candidates (reranking cfg)" candidates] by linarith
  then show ?thesis
    by (auto simp add: rerank_world bubble_passes_calls LLMReranker_init_def)
qed

text \<open>Four candidates under the default configuration: \<open>3 * (4 - 1) = 9\<close> calls; one
  candidate: none.\<close>

theorem rerank_oracle_call_count_witness:
  "2 \<le> length (py_slice_to (max_candidates (reranking DEFAULT_CONFIG)) [4, 2, 3, 1 :: nat]) \<and>
   llm_calls (snd (rerank (LLMReranker_init DEFAULT_CONFIG) ground_truth_llm ''db'' [4, 2, 3, 1 :: nat]
                 \<lparr> llm_state = (), llm_calls = 0 \<rparr>)) = 9 \<and>
   length [7 :: nat] \<le> 1 \<and>
   snd (rerank (LLMReranker_init DEFAULT_CONFIG) ground_truth_llm ''db'' [7 :: nat]
          \<lparr> llm_state = (), llm_calls = 0 \<rparr>) = \<lparr> llm_state = (), llm_calls = 0 \<rparr>"
proof -
  have l: "length (py_slice_to (max_candidates (reranking DEFAULT_CONFIG)) [4, 2, 3, 1 :: nat]) = 4"
    by (simp add: DEFAULT_CONFIG_def py_slice_to_def)
  have p: "nat (min (top_k_results DEFAULT_CONFIG) 3) = 3" by (simp add: DEFAULT_CONFIG_def)
  show ?thesis
    using rerank_oracle_call_count [of DEFAULT_CONFIG "[4, 2, 3, 1 :: nat]" ground_truth_llm "''db''" "\<lparr> llm_state = (), llm_calls = 0 \<rparr>"]
      rerank_oracle_call_count [of DEFAULT_CONFIG "[7 :: nat]" ground_truth_llm "''db''" "\<lparr> llm_state = (), llm_calls = 0 \<rparr>"]
    unfolding l p by simp
qed

text \<open>
  C10. Truncation and permutation: for every candidate list, every oracle and every cap
  \<open>max_candidates \<ge> 1\<close> (20 by default), the candidates in the output of \<^verbatim>\<open>rerank\<close> are, as
  a multiset, exactly the first \<open>min n max_candidates\<close> input candidates; so when \<open>n\<close>
  exceeds the cap the output is strictly shorter than the input.
\<close>

theorem rerank_permutation_of_prefix:
  assumes mc: "1 \<le> max_candidates (reranking (config self))"
  shows "mset (map candidate (fst (rerank self llm q candidates w))) =
           mset (take (min (length candidates) (nat (max_candidates (reranking (config self))))) candidates) \<and>
         (max_candidates (reranking (config self)) < int (length candidates) \<longrightarrow>
            length (fst (rerank self llm q candidates w)) < length candidates)"
proof -
  let ?mc = "max_candidates (reranking (config self))"
  have tk: "take (min (length candidates) (nat ?mc)) candidates = take (nat ?mc) candidates"
    by (simp add: min_def)
  have m: "mset (map candidate (fst (rerank self llm q candidates w))) = mset (take (nat ?mc) candidates)"
  proof (cases "length candidates \<le> 1")
    case True
    then show ?thesis using mc by (simp add: rerank_candidates)
  next
    case False
    then show ?thesis using mc by (simp add: rerank_candidates bubble_passes_mset py_slice_to_pos)
  qed
  have "length (map candidate (fst (rerank self llm q candidates w))) = length (take (nat ?mc) candidates)"
    using m by (metis size_mset)
  then have len: "length (fst (rerank self llm q candidates w)) = min (length candidates) (nat ?mc)"
    by simp
  show ?thesis using m tk len mc by auto
qed

text \<open>The theorem under the default configuration.\<close>

theorem rerank_permutation_of_prefix_witness:
  "1 \<le> max_candidates (reranking (config (LLMReranker_init DEFAULT_CONFIG))) \<and>
   mset (map candidate (fst (rerank (LLMReranker_init DEFAULT_CONFIG) ground_truth_llm ''db''
           [4, 2, 3, 1 :: nat] \<lparr> llm_state = (), llm_calls = 0 \<rparr>))) = mset [4, 2, 3, 1]"
proof -
  have mc: "1 \<le> max_candidates (reranking (config (LLMReranker_init DEFAULT_CONFIG)))"
    by (simp add: LLMReranker_init_def DEFAULT_CONFIG_def)
  have mcv: "nat (max_candidates (reranking (config (LLMReranker_init DEFAULT_CONFIG)))) = 20"
    by (simp add: LLMReranker_init_def DEFAULT_CONFIG_def)
  show ?thesis
    using mc rerank_permutation_of_prefix [OF mc, of ground_truth_llm "''db''" "[4, 2, 3, 1 :: nat]" "\<lparr> llm_state = (), llm_calls = 0 \<rparr>"]
    unfolding mcv by simp
qed

section \<open>Insertion-ordered dictionaries and rank fusion: lemmas\<close>

lemma dict_add_keys:
  "map fst (dict_add d k v) = (if k \<in> set (map fst d) then map fst d else map fst d @ [k])"
  by (induction d) (auto simp: rev_image_eqI)

lemma dict_add_distinct: "distinct (map fst d) \<Longrightarrow> distinct (map fst (dict_add d k v))"
  by (simp add: dict_add_keys)

lemma dict_add_lookup0:
  "lookup0 (dict_add d k v) k' = (if k' = k then lookup0 d k + v else lookup0 d k')"
  by (induction d) (auto simp: lookup0_def)

lemma dict_add_fresh: "k \<notin> set (map fst d) \<Longrightarrow> dict_add d k v = d @ [(k, v)]"
  by (induction d) auto

lemma rrf_accumulate_spec:
  "0 < k + int n \<Longrightarrow> distinct (map fst fs) \<Longrightarrow>
   \<exists>fs'. rrf_accumulate k (int n) rs fs = Inr fs' \<and> distinct (map fst fs') \<and>
     set (map fst fs') = set (map fst fs) \<union> result_id ` set rs \<and>
     (\<forall>d. lookup0 fs' d = lookup0 fs d +
        (\<Sum>(rank, r)\<leftarrow>enumerate n rs. if result_id r = d then 1 / real_of_int (k + int rank) else 0))"
proof (induction rs arbitrary: n fs)
  case Nil
  then show ?case by simp
next
  case (Cons r rs)
  let ?fs = "dict_add fs (result_id r) (1 / real_of_int (k + int n))"
  have d: "distinct (map fst ?fs)" using Cons.prems by (simp add: dict_add_distinct)
  have pos: "0 < k + int (Suc n)" using Cons.prems by simp
  obtain fs' where r: "rrf_accumulate k (int (Suc n)) rs ?fs = Inr fs'" and d': "distinct (map fst fs')"
    and s: "set (map fst fs') = set (map fst ?fs) \<union> result_id ` set rs"
    and l: "\<forall>d. lookup0 fs' d = lookup0 ?fs d +
        (\<Sum>(rank, r)\<leftarrow>enumerate (Suc n) rs. if result_id r = d then 1 / real_of_int (k + int rank) else 0)"
    using Cons.IH [OF pos d] by blast
  have e: "rrf_accumulate k (int n) (r # rs) fs = Inr fs'"
    using r Cons.prems by (simp add: add.commute add.left_commute)
  have s': "set (map fst fs') = set (map fst fs) \<union> result_id ` set (r # rs)"
    using s by (auto simp: dict_add_keys)
  have l': "\<forall>d. lookup0 fs' d = lookup0 fs d +
        (\<Sum>(rank, r)\<leftarrow>enumerate n (r # rs). if result_id r = d then 1 / real_of_int (k + int rank) else 0)"
    using l by (simp add: dict_add_lookup0)
  show ?case using e d' s' l' by blast
qed

lemma lookup0_empty: "lookup0 [] d = 0"
  by (simp add: lookup0_def)

lemma lookup0_distinct: "distinct (map fst d) \<Longrightarrow> (k, v) \<in> set d \<Longrightarrow> lookup0 d k = v"
  by (simp add: lookup0_def)

lemma py_sorted_desc_mset: "mset (py_sorted_desc xs) = mset xs"
  by (simp add: py_sorted_desc_def)

lemma py_sorted_desc_sorted: "sorted_wrt (\<lambda>x y. snd y \<le> snd x) (py_sorted_desc xs)"
proof -
  have "sorted (map (\<lambda>x. - snd x) (py_sorted_desc xs))"
    by (simp add: py_sorted_desc_def)
  then show ?thesis by (simp add: sorted_map)
qed

lemma py_sorted_desc_stable:
  "filter (\<lambda>x. snd x = s) (py_sorted_desc xs) = filter (\<lambda>x. snd x = s) xs"
  using sort_key_stable [of "\<lambda>x. - snd x" "- s" xs] by (simp add: py_sorted_desc_def)

lemma rrf_full:
  assumes k: "0 \<le> k"
  shows "\<exists>fused. reciprocal_rank_fusion cfg dense sparse k =
             Inr (py_slice_to (fusion_top_k (retrieval cfg)) (py_sorted_desc fused)) \<and>
           distinct (map fst fused) \<and>
           set (map fst fused) = result_id ` set dense \<union> result_id ` set sparse \<and>
           (\<forall>d. lookup0 fused d = rank_contribution k dense d + rank_contribution k sparse d)"
proof -
  have pos: "0 < k + int 1" using k by simp
  obtain f1 where r1: "rrf_accumulate k (int 1) dense [] = Inr f1" and d1: "distinct (map fst f1)"
    and s1: "set (map fst f1) = set (map fst []) \<union> result_id ` set dense"
    and l1: "\<forall>d. lookup0 f1 d = lookup0 [] d + rank_contribution k dense d"
    using rrf_accumulate_spec [OF pos, of "[]" dense] unfolding rank_contribution_def by auto
  obtain f2 where r2: "rrf_accumulate k (int 1) sparse f1 = Inr f2" and d2: "distinct (map fst f2)"
    and s2: "set (map fst f2) = set (map fst f1) \<union> result_id ` set sparse"
    and l2: "\<forall>d. lookup0 f2 d = lookup0 f1 d + rank_contribution k sparse d"
    using rrf_accumulate_spec [OF pos d1, of sparse] unfolding rank_contribution_def by auto
  have "reciprocal_rank_fusion cfg dense sparse k =
          Inr (py_slice_to (fusion_top_k (retrieval cfg)) (py_sorted_desc f2))"
    using r1 r2 by (simp add: reciprocal_rank_fusion_def)
  moreover have "set (map fst f2) = result_id ` set dense \<union> result_id ` set sparse"
    using s1 s2 by simp
  moreover have "\<forall>d. lookup0 f2 d = rank_contribution k dense d + rank_contribution k sparse d"
    using l1 l2 by (simp add: lookup0_empty)
  ultimately show ?thesis using d2 by blast
qed

lemma rrf_accumulate_fresh:
  "0 < k + int n \<Longrightarrow> distinct (map result_id rs) \<Longrightarrow>
   result_id ` set rs \<inter> set (map fst fs) = {} \<Longrightarrow>
   rrf_accumulate k (int n) rs fs =
     Inr (fs @ map (\<lambda>(rank, r). (result_id r, 1 / real_of_int (k + int rank))) (enumerate n rs))"
proof (induction rs arbitrary: n fs)
  case Nil
  then show ?case by simp
next
  case (Cons r rs)
  let ?v = "1 / real_of_int (k + int n)"
  have fresh: "result_id r \<notin> set (map fst fs)" using Cons.prems by auto
  then have da: "dict_add fs (result_id r) ?v = fs @ [(result_id r, ?v)]"
    by (rule dict_add_fresh)
  have pos: "0 < k + int (Suc n)" using Cons.prems by simp
  have dis: "distinct (map result_id rs)" using Cons.prems by simp
  have int: "result_id ` set rs \<inter> set (map fst (fs @ [(result_id r, ?v)])) = {}"
    using Cons.prems by auto
  have "rrf_accumulate k (int n) (r # rs) fs = rrf_accumulate k (int (Suc n)) rs (fs @ [(result_id r, ?v)])"
    using Cons.prems da by (simp add: add.commute add.left_commute)
  then show ?case using Cons.IH [OF pos dis int] by simp
qed

lemma enumerate_scores_sorted:
  "0 < k + int n \<Longrightarrow>
   sorted (map (\<lambda>x. - snd x)
     (map (\<lambda>(rank, r). (result_id r, 1 / real_of_int (k + int rank))) (enumerate n rs)))"
proof (induction rs arbitrary: n)
  case Nil
  show ?case by simp
next
  case (Cons r rs)
  have pos: "0 < k + int (Suc n)" using Cons.prems by simp
  have "1 / real_of_int (k + int a) \<le> 1 / real_of_int (k + int n)"
    if "(a, c) \<in> set (enumerate (Suc n) rs)" for a c
  proof -
    have "Suc n \<le> a" using that by (simp add: in_set_enumerate_eq)
    then have "real_of_int (k + int n) \<le> real_of_int (k + int a)" by simp
    moreover have "0 < real_of_int (k + int n)" using Cons.prems by simp
    ultimately show ?thesis by (simp add: frac_le)
  qed
  then show ?case using Cons.IH [OF pos] by auto
qed

lemma py_slice_to_map: "map f (py_slice_to n xs) = py_slice_to n (map f xs)"
  by (simp add: py_slice_to_def take_map)

lemma enumerate_ids:
  "map fst (map (\<lambda>(rank, r). (result_id r, g rank)) (enumerate n rs)) = map result_id rs"
  by (induction rs arbitrary: n) auto

section \<open>Claims about rank fusion\<close>

text \<open>
  C4. Reciprocal Rank Fusion contract, for \<open>k \<ge> 0\<close> (the callers leave it at the default
  60): the fusion returns, without raising, the first \<open>fusion_top_k\<close> entries of a list
  \<open>full\<close> that holds every id of either input exactly once, each with the sum over both
  input lists of \<open>1 / (k + rank)\<close> for the 1-based ranks at which the id occurs, in
  descending order of that score. In particular a single hit fused with the empty list
  gets the score \<open>1 / (k + 1)\<close>.
\<close>

theorem reciprocal_rank_fusion_contract:
  assumes k: "0 \<le> k"
  shows "(\<exists>full. reciprocal_rank_fusion cfg dense sparse k =
                   Inr (py_slice_to (fusion_top_k (retrieval cfg)) full) \<and>
            distinct (map fst full) \<and>
            set (map fst full) = result_id ` set dense \<union> result_id ` set sparse \<and>
            (\<forall>(d, s) \<in> set full. s = rank_contribution k dense d + rank_contribution k sparse d) \<and>
            sorted_wrt (\<lambda>x y. snd y \<le> snd x) full) \<and>
         reciprocal_rank_fusion cfg [a] [] k =
           Inr (py_slice_to (fusion_top_k (retrieval cfg)) [(result_id a, 1 / real_of_int (k + 1))])"
proof -
  obtain fused where r: "reciprocal_rank_fusion cfg dense sparse k =
             Inr (py_slice_to (fusion_top_k (retrieval cfg)) (py_sorted_desc fused))"
    and d: "distinct (map fst fused)"
    and s: "set (map fst fused) = result_id ` set dense \<union> result_id ` set sparse"
    and l: "\<forall>d. lookup0 fused d = rank_contribution k dense d + rank_contribution k sparse d"
    using rrf_full [OF k] by blast
  let ?full = "py_sorted_desc fused"
  have m: "mset ?full = mset fused" by (rule py_sorted_desc_mset)
  have m': "mset (map fst ?full) = mset (map fst fused)" using m by (metis mset_map)
  have d': "distinct (map fst ?full)" using d m' by (metis mset_eq_imp_distinct_iff)
  have s': "set (map fst ?full) = result_id ` set dense \<union> result_id ` set sparse"
    using s m' by (metis set_mset_mset)
  have v: "\<forall>(d, s) \<in> set ?full. s = rank_contribution k dense d + rank_contribution k sparse d"
  proof (clarify)
    fix dd ss assume "(dd, ss) \<in> set ?full"
    then have "(dd, ss) \<in> set fused" using m by (metis set_mset_mset)
    then have "lookup0 fused dd = ss" using d by (rule lookup0_distinct [rotated])
    then show "ss = rank_contribution k dense dd + rank_contribution k sparse dd" using l by simp
  qed
  have one: "reciprocal_rank_fusion cfg [a] [] k =
           Inr (py_slice_to (fusion_top_k (retrieval cfg)) [(result_id a, 1 / real_of_int (k + 1))])"
    using k by (simp add: reciprocal_rank_fusion_def py_sorted_desc_def)
  show ?thesis using r d' s' v py_sorted_desc_sorted [of fused] one by blast
qed

text \<open>The theorem at \<open>k = 60\<close>: dense \<open>[A, B, C]\<close> fused with sparse \<open>[B, C, A]\<close>,
  and \<open>A\<close> alone.\<close>

theorem reciprocal_rank_fusion_contract_witness:
  "(0::int) \<le> 60 \<and>
   reciprocal_rank_fusion DEFAULT_CONFIG
     [\<lparr>result_id = ''A'', result_score = 9 / 10\<rparr>, \<lparr>result_id = ''B'', result_score = 8 / 10\<rparr>,
      \<lparr>result_id = ''C'', result_score = 7 / 10\<rparr>]
     [\<lparr>result_id = ''B'', result_score = 12\<rparr>, \<lparr>result_id = ''C'', result_score = 5\<rparr>,
      \<lparr>result_id = ''A'', result_score = 1\<rparr>] 60
     = Inr [(''B'', 1 / 62 + 1 / 61), (''A'', 1 / 61 + 1 / 63), (''C'', 1 / 63 + 1 / 62)] \<and>
   rank_contribution 60
     [\<lparr>result_id = ''A'', result_score = 9 / 10\<rparr>, \<lparr>result_id = ''B'', result_score = 8 / 10\<rparr>,
      \<lparr>result_id = ''C'', result_score = 7 / 10\<rparr>] ''B'' = 1 / 62 \<and>
   reciprocal_rank_fusion DEFAULT_CONFIG [\<lparr>result_id = ''A'', result_score = 9 / 10\<rparr>] [] 60
     = Inr [(''A'', 1 / 61)]"
proof -
  have k: "(0::int) \<le> 60" by simp
  let ?dense = "[\<lparr>result_id = ''A'', result_score = 9 / 10\<rparr>, \<lparr>result_id = ''B'', result_score = 8 / 10\<rparr>,
      \<lparr>result_id = ''C'', result_score = 7 / 10\<rparr>]"
  let ?sparse = "[\<lparr>result_id = ''B'', result_score = 12\<rparr>, \<lparr>result_id = ''C'', result_score = 5\<rparr>,
      \<lparr>result_id = ''A'', result_score = 1\<rparr>]"
  have e: "reciprocal_rank_fusion DEFAULT_CONFIG ?dense ?sparse 60
     = Inr [(''B'', 1 / 62 + 1 / 61), (''A'', 1 / 61 + 1 / 63), (''C'', 1 / 63 + 1 / 62)]"
    by (simp add: reciprocal_rank_fusion_def py_sorted_desc_def py_slice_to_def DEFAULT_CONFIG_def)
  have c: "rank_contribution 60 ?dense ''B'' = 1 / 62"
    by (simp add: rank_contribution_def)
  have "reciprocal_rank_fusion DEFAULT_CONFIG [\<lparr>result_id = ''A'', result_score = 9 / 10\<rparr>] [] 60
     = Inr (py_slice_to (fusion_top_k (retrieval DEFAULT_CONFIG)) [(''A'', 1 / real_of_int (60 + 1))])"
    using reciprocal_rank_fusion_contract [OF k, of DEFAULT_CONFIG "[]" "[]" "\<lparr>result_id = ''A'', result_score = 9 / 10\<rparr>"]
    by simp
  then have o: "reciprocal_rank_fusion DEFAULT_CONFIG [\<lparr>result_id = ''A'', result_score = 9 / 10\<rparr>] [] 60
     = Inr [(''A'', 1 / 61)]"
    by (simp add: py_slice_to_def DEFAULT_CONFIG_def)
  show ?thesis using k e c o by blast
qed

text \<open>
  C9. Fusion with an empty list: for every ranked list \<open>L\<close> (each id at one rank) and
  \<open>k \<ge> 0\<close>, fusing \<open>L\<close> with the empty list, in either argument position, returns the ids
  of \<open>L\<close> in the order of \<open>L\<close>, each with the score \<open>1 / (k + rank)\<close>, truncated to
  \<open>fusion_top_k\<close>. The statement also covers the empty \<open>L\<close>.
\<close>

theorem fusion_with_empty_list:
  assumes k: "0 \<le> k" and dis: "distinct (map result_id L)"
  shows "reciprocal_rank_fusion cfg L [] k =
           Inr (py_slice_to (fusion_top_k (retrieval cfg))
                  (map (\<lambda>(rank, r). (result_id r, 1 / real_of_int (k + int rank))) (enumerate 1 L))) \<and>
         reciprocal_rank_fusion cfg [] L k = reciprocal_rank_fusion cfg L [] k \<and>
         map_sum id (map fst) (reciprocal_rank_fusion cfg L [] k) =
           Inr (py_slice_to (fusion_top_k (retrieval cfg)) (map result_id L))"
proof -
  let ?items = "map (\<lambda>(rank, r). (result_id r, 1 / real_of_int (k + int rank))) (enumerate 1 L)"
  have pos: "0 < k + int 1" using k by simp
  have acc: "rrf_accumulate k 1 L [] = Inr ?items"
    using rrf_accumulate_fresh [OF pos dis, of "[]"] by simp
  have srt: "py_sorted_desc ?items = ?items"
    unfolding py_sorted_desc_def using enumerate_scores_sorted [OF pos, of L]
    by (rule sort_key_id_if_sorted)
  have a: "reciprocal_rank_fusion cfg L [] k = Inr (py_slice_to (fusion_top_k (retrieval cfg)) ?items)"
    by (simp only: reciprocal_rank_fusion_def rrf_accumulate.simps(1) acc srt sum.case)
  have b: "reciprocal_rank_fusion cfg [] L k = Inr (py_slice_to (fusion_top_k (retrieval cfg)) ?items)"
    by (simp only: reciprocal_rank_fusion_def rrf_accumulate.simps(1) acc srt sum.case)
  have c: "map_sum id (map fst) (reciprocal_rank_fusion cfg L [] k) =
           Inr (py_slice_to (fusion_top_k (retrieval cfg)) (map result_id L))"
    by (simp only: a map_sum.simps py_slice_to_map enumerate_ids)
  show ?thesis using a b c by simp
qed

text \<open>The theorem at a list of two hits, in both argument positions.\<close>

theorem fusion_with_empty_list_witness:
  "(0::int) \<le> 60 \<and>
   distinct (map result_id [\<lparr>result_id = ''x'', result_score = 3\<rparr>, \<lparr>result_id = ''y'', result_score = 2\<rparr>]) \<and>
   reciprocal_rank_fusion DEFAULT_CONFIG
     [\<lparr>result_id = ''x'', result_score = 3\<rparr>, \<lparr>result_id = ''y'', result_score = 2\<rparr>] [] 60 =
     Inr [(''x'', 1 / 61), (''y'', 1 / 62)] \<and>
   reciprocal_rank_fusion DEFAULT_CONFIG []
     [\<lparr>result_id = ''x'', result_score = 3\<rparr>, \<lparr>result_id = ''y'', result_score = 2\<rparr>] 60 =
     Inr [(''x'', 1 / 61), (''y'', 1 / 62)]"
proof -
  let ?L = "[\<lparr>result_id = ''x'', result_score = 3\<rparr>, \<lparr>result_id = ''y'', result_score = 2\<rparr>]"
  have k: "(0::int) \<le> 60" by simp
  have d: "distinct (map result_id ?L)" by simp
  note T = fusion_with_empty_list [OF k d, of DEFAULT_CONFIG]
  have a: "reciprocal_rank_fusion DEFAULT_CONFIG ?L [] 60 = Inr [(''x'', 1 / 61), (''y'', 1 / 62)]"
    using T by (simp add: py_slice_to_def DEFAULT_CONFIG_def)
  have b: "reciprocal_rank_fusion DEFAULT_CONFIG [] ?L 60 = Inr [(''x'', 1 / 61), (''y'', 1 / 62)]"
    using T a by simp
  show ?thesis using k d a b by blast
qed

section \<open>The sparse index: what a built index holds and what a search computes\<close>

lemma map_of_dict_set: "map_of (dict_set m k v) k' = (if k' = k then Some v else map_of m k')"
  by (induction m) auto

lemma dict_set_fresh: "k \<notin> fst ` set m \<Longrightarrow> dict_set m k v = m @ [(k, v)]"
  by (induction m) auto

lemma fold_index_token:
  "distinct ts \<Longrightarrow>
   map_of (fst (fold (index_token d) ts (df, ix))) t =
     (if t \<in> set ts then Some ((case map_of df t of None \<Rightarrow> 0 | Some n \<Rightarrow> n) + 1) else map_of df t) \<and>
   map_of (snd (fold (index_token d) ts (df, ix))) t =
     (if t \<in> set ts then Some (set_add (case map_of ix t of None \<Rightarrow> [] | Some s \<Rightarrow> s) d)
      else map_of ix t)"
proof (induction ts arbitrary: df ix)
  case Nil
  show ?case by simp
next
  case (Cons a ts)
  let ?df = "dict_set df a ((case map_of df a of None \<Rightarrow> 0 | Some n \<Rightarrow> n) + 1)"
  let ?ix = "dict_set ix a (set_add (case map_of ix a of None \<Rightarrow> [] | Some s \<Rightarrow> s) d)"
  have step: "fold (index_token d) (a # ts) (df, ix) = fold (index_token d) ts (?df, ?ix)"
    by (simp add: index_token_def)
  have dts: "distinct ts" and a: "a \<notin> set ts" using Cons.prems by simp_all
  show ?case
    unfolding step using Cons.IH [OF dts, of ?df ?ix] a
    by (auto simp: map_of_dict_set)
qed

lemma index_of_snoc:
  "index_of k1' b' (docs @ [(d, text)]) = add_document (index_of k1' b' docs) d text"
  by (simp add: index_of_def)

lemma docs_with_snoc:
  "docs_with (docs @ [(d, text)]) t =
     (if t \<in> set (tokenize text) then docs_with docs t @ [d] else docs_with docs t)"
  by (simp add: docs_with_def)

lemma docs_with_subset: "set (docs_with docs t) \<subseteq> fst ` set docs"
  by (auto simp: docs_with_def)

lemma add_document_avg:
  "avg_doc_length (add_document self d tx) =
     real (sum_list (map snd (doc_lengths (add_document self d tx)))) / real (N_docs (add_document self d tx))"
  by (simp add: add_document_def Let_def)

lemma map_snd_lengths:
  "map snd (map (\<lambda>(d, tx). (d, g tx)) xs) = map (\<lambda>(d, tx). g tx) xs"
  by (induction xs) auto

lemma index_of_invariant:
  "distinct (map fst docs) \<Longrightarrow>
   documents (index_of k1' b' docs) = map (\<lambda>(d, text). (d, tokenize text)) docs \<and>
   doc_lengths (index_of k1' b' docs) = map (\<lambda>(d, text). (d, length (tokenize text))) docs \<and>
   N_docs (index_of k1' b' docs) = length docs \<and>
   k1_param (index_of k1' b' docs) = k1' \<and> b_param (index_of k1' b' docs) = b' \<and>
   avg_doc_length (index_of k1' b' docs) =
     (if docs = [] then 0
      else real (sum_list (map (\<lambda>(d, text). length (tokenize text)) docs)) / real (length docs)) \<and>
   (\<forall>t. map_of (inverted_index (index_of k1' b' docs)) t =
      (if docs_with docs t = [] then None else Some (docs_with docs t))) \<and>
   (\<forall>t. map_of (doc_freqs (index_of k1' b' docs)) t =
      (if docs_with docs t = [] then None else Some (length (docs_with docs t))))"
proof (induction docs rule: rev_induct)
  case Nil
  show ?case by (simp add: index_of_def BM25Index_init_def docs_with_def)
next
  case (snoc x docs)
  obtain d tx where x: "x = (d, tx)" by (cases x)
  let ?I = "index_of k1' b' docs"
  have dis: "distinct (map fst docs)" and fresh: "d \<notin> fst ` set docs"
    using snoc.prems x by simp_all
  note IH = snoc.IH [OF dis]
  have f1: "d \<notin> fst ` set (documents ?I)" using IH fresh by (auto simp: image_iff)
  have f2: "d \<notin> fst ` set (doc_lengths ?I)" using IH fresh by (auto simp: image_iff)
  have notin: "\<And>t. d \<notin> set (docs_with docs t)" using docs_with_subset [of docs] fresh by blast
  let ?st = "fold (index_token d) (remdups (tokenize tx)) (doc_freqs ?I, inverted_index ?I)"
  have fi: "\<And>t. map_of (fst ?st) t =
     (if t \<in> set (tokenize tx) then Some ((case map_of (doc_freqs ?I) t of None \<Rightarrow> 0 | Some n \<Rightarrow> n) + 1)
      else map_of (doc_freqs ?I) t)"
    and si: "\<And>t. map_of (snd ?st) t =
     (if t \<in> set (tokenize tx)
      then Some (set_add (case map_of (inverted_index ?I) t of None \<Rightarrow> [] | Some s \<Rightarrow> s) d)
      else map_of (inverted_index ?I) t)"
    using fold_index_token [of "remdups (tokenize tx)" d "doc_freqs ?I" "inverted_index ?I"]
    by simp_all
  have A: "index_of k1' b' (docs @ [x]) = add_document ?I d tx"
    using x by (simp add: index_of_snoc)
  have docs': "documents (add_document ?I d tx) = map (\<lambda>(d, tx). (d, tokenize tx)) (docs @ [x])"
    using IH f1 x by (simp add: add_document_def Let_def dict_set_fresh)
  have lens': "doc_lengths (add_document ?I d tx) =
      map (\<lambda>(d, tx). (d, length (tokenize tx))) (docs @ [x])"
    using IH f2 x by (simp add: add_document_def Let_def dict_set_fresh)
  have n': "N_docs (add_document ?I d tx) = length (docs @ [x])"
    using IH by (simp add: add_document_def Let_def)
  have p': "k1_param (add_document ?I d tx) = k1' \<and> b_param (add_document ?I d tx) = b'"
    using IH by (simp add: add_document_def Let_def)
  have avg': "avg_doc_length (add_document ?I d tx) =
      real (sum_list (map (\<lambda>(d, tx). length (tokenize tx)) (docs @ [x]))) / real (length (docs @ [x]))"
    unfolding add_document_avg lens' n' map_snd_lengths ..
  have inv': "\<forall>t. map_of (inverted_index (add_document ?I d tx)) t =
      (if docs_with (docs @ [x]) t = [] then None else Some (docs_with (docs @ [x]) t))"
  proof
    fix t
    have "map_of (inverted_index (add_document ?I d tx)) t = map_of (snd ?st) t"
      by (simp add: add_document_def Let_def)
    then show "map_of (inverted_index (add_document ?I d tx)) t =
      (if docs_with (docs @ [x]) t = [] then None else Some (docs_with (docs @ [x]) t))"
      using si [of t] IH notin [of t] x by (auto simp: docs_with_snoc set_add_def)
  qed
  have df': "\<forall>t. map_of (doc_freqs (add_document ?I d tx)) t =
      (if docs_with (docs @ [x]) t = [] then None else Some (length (docs_with (docs @ [x]) t)))"
  proof
    fix t
    have "map_of (doc_freqs (add_document ?I d tx)) t = map_of (fst ?st) t"
      by (simp add: add_document_def Let_def)
    then show "map_of (doc_freqs (add_document ?I d tx)) t =
      (if docs_with (docs @ [x]) t = [] then None else Some (length (docs_with (docs @ [x]) t)))"
      using fi [of t] IH x by (auto simp: docs_with_snoc)
  qed
  show ?case
    unfolding A using docs' lens' n' p' avg' inv' df' by simp
qed

lemma fold_dict_add_lookup0:
  "lookup0 (fold (\<lambda>d S. dict_add S d (g d)) ds S) x =
     lookup0 S x + (\<Sum>d\<leftarrow>ds. if d = x then g d else 0)"
  by (induction ds arbitrary: S) (auto simp: dict_add_lookup0)

lemma set_add_keys: "map fst (dict_add S d v) = set_add (map fst S) d"
  by (simp add: dict_add_keys set_add_def)

lemma fold_dict_add_keys:
  "map fst (fold (\<lambda>d S. dict_add S d (g d)) ds S) = fold (\<lambda>x s. set_add s x) ds (map fst S)"
  by (induction ds arbitrary: S) (auto simp: set_add_keys)

lemma fold_set_add_distinct: "distinct s \<Longrightarrow> distinct (fold (\<lambda>x s. set_add s x) xs s)"
  by (induction xs arbitrary: s) (auto simp: set_add_def)

lemma fold_set_add_set: "set (fold (\<lambda>x s. set_add s x) xs s) = set s \<union> set xs"
  by (induction xs arbitrary: s) (auto simp: set_add_def)

lemma docs_with_distinct: "distinct (map fst docs) \<Longrightarrow> distinct (docs_with docs t)"
  by (simp add: docs_with_def distinct_map_filter)

lemma docs_with_iff:
  assumes dis: "distinct (map fst docs)"
  shows "d \<in> set (docs_with docs t) \<longleftrightarrow> d \<in> fst ` set docs \<and> t \<in> set (tokens_of docs d)"
proof
  assume "d \<in> set (docs_with docs t)"
  then obtain tx where in_docs: "(d, tx) \<in> set docs" and tok: "t \<in> set (tokenize tx)"
    by (auto simp: docs_with_def)
  have "map_of docs d = Some tx" using dis in_docs by simp
  then have "tokens_of docs d = tokenize tx" by (simp add: tokens_of_def)
  moreover have "d \<in> fst ` set docs" using in_docs by force
  ultimately show "d \<in> fst ` set docs \<and> t \<in> set (tokens_of docs d)" using tok by simp
next
  assume a: "d \<in> fst ` set docs \<and> t \<in> set (tokens_of docs d)"
  then obtain tx where in_docs: "(d, tx) \<in> set docs" by force
  have "map_of docs d = Some tx" using dis in_docs by simp
  then have "tokens_of docs d = tokenize tx" by (simp add: tokens_of_def)
  then have "t \<in> set (tokenize tx)" using a by simp
  then show "d \<in> set (docs_with docs t)" using in_docs by (force simp: docs_with_def)
qed

lemma index_documents_lookup:
  assumes "distinct (map fst docs)" "d \<in> fst ` set docs"
  shows "map_of (documents (index_of k1' b' docs)) d = Some (tokens_of docs d)"
    and "map_of (doc_lengths (index_of k1' b' docs)) d = Some (length (tokens_of docs d))"
proof -
  obtain tx where m: "map_of docs d = Some tx"
    using assms by (metis (no_types) domIff dom_map_of_conv_image_fst not_Some_eq)
  have "map_of (map (\<lambda>(d, tx). (d, tokenize tx)) docs) d = Some (tokenize tx)"
    using m by (induction docs) (auto split: if_splits)
  then show "map_of (documents (index_of k1' b' docs)) d = Some (tokens_of docs d)"
    using index_of_invariant [OF assms(1), of k1' b'] m by (simp add: tokens_of_def)
  have "map_of (map (\<lambda>(d, tx). (d, length (tokenize tx))) docs) d = Some (length (tokenize tx))"
    using m by (induction docs) (auto split: if_splits)
  then show "map_of (doc_lengths (index_of k1' b' docs)) d = Some (length (tokens_of docs d))"
    using index_of_invariant [OF assms(1), of k1' b'] m by (simp add: tokens_of_def)
qed

lemma sum_lengths_pos:
  "(d, tx) \<in> set docs \<Longrightarrow> tokenize tx \<noteq> [] \<Longrightarrow>
   0 < sum_list (map (\<lambda>(d, tx). length (tokenize tx)) docs)"
  by (induction docs) auto

lemma index_avg_pos:
  assumes dis: "distinct (map fst docs)" and ne: "docs_with docs t \<noteq> []"
  shows "0 < avg_doc_length (index_of k1' b' docs)"
proof -
  obtain d where "d \<in> set (docs_with docs t)" using ne by (cases "docs_with docs t") auto
  then obtain tx where in_docs: "(d, tx) \<in> set docs" and tok: "t \<in> set (tokenize tx)"
    by (auto simp: docs_with_def)
  have "tokenize tx \<noteq> []" using tok by auto
  then have "0 < sum_list (map (\<lambda>(d, tx). length (tokenize tx)) docs)"
    using in_docs by (rule sum_lengths_pos [rotated])
  moreover have "docs \<noteq> []" using in_docs by auto
  ultimately show ?thesis
    using index_of_invariant [OF dis, of k1' b'] by simp
qed

lemma bm25_denominator_pos:
  assumes "0 \<le> k1'" "0 \<le> b'" "b' \<le> 1" "0 < avg" "1 \<le> tf"
  shows "0 < real tf + k1' * (1 - b' + b' * real doc_len / avg)"
proof -
  have "0 \<le> b' * real doc_len / avg" using assms by simp
  then have "0 \<le> 1 - b' + b' * real doc_len / avg" using assms by linarith
  then have "0 \<le> k1' * (1 - b' + b' * real doc_len / avg)" using assms by simp
  moreover have "0 < real tf" using assms by simp
  ultimately show ?thesis by linarith
qed

lemma score_postings_built:
  assumes dis: "distinct (map fst docs)" and k: "0 \<le> k1'" and b0: "0 \<le> b'" and b1: "b' \<le> 1"
    and ne: "docs_with docs t \<noteq> []"
  shows "set ds \<subseteq> set (docs_with docs t) \<Longrightarrow>
     score_postings (index_of k1' b' docs) t v ds S =
       Inr (fold (\<lambda>d S. dict_add S d
                    (v * bm25_weight k1' b' (avg_doc_length (index_of k1' b' docs))
                           (count_list (tokens_of docs d) t) (length (tokens_of docs d)))) ds S)"
proof (induction ds arbitrary: S)
  case Nil
  show ?case by simp
next
  case (Cons d ds)
  let ?I = "index_of k1' b' docs"
  have din: "d \<in> set (docs_with docs t)" using Cons.prems by simp
  then have mem: "d \<in> fst ` set docs" and tok: "t \<in> set (tokens_of docs d)"
    using docs_with_iff [OF dis] by blast+
  have tf: "1 \<le> count_list (tokens_of docs d) t"
    using tok by (metis count_list_0_iff less_one not_le)
  have avg: "0 < avg_doc_length ?I" by (rule index_avg_pos [OF dis ne])
  have par: "k1_param ?I = k1'" "b_param ?I = b'"
    using index_of_invariant [OF dis, of k1' b'] by simp_all
  have den: "0 < real (count_list (tokens_of docs d) t)
       + k1' * (1 - b' + b' * real (length (tokens_of docs d)) / avg_doc_length ?I)"
    by (rule bm25_denominator_pos [OF k b0 b1 avg tf])
  have rest: "set ds \<subseteq> set (docs_with docs t)" using Cons.prems by simp
  show ?case
    using index_documents_lookup [OF dis mem, of k1' b'] avg den par Cons.IH [OF rest]
    by (simp add: Let_def bm25_weight_def)
qed

lemma idf_value_pos: "df \<le> n \<Longrightarrow> 0 < idf_value n df"
proof -
  assume le: "df \<le> n"
  have "0 \<le> real_of_int (int n - int df)" using le by simp
  then have "0 < (real_of_int (int n - int df) + 1 / 2) / (real df + 1 / 2)"
    by (intro divide_pos_pos) linarith+
  then show ?thesis unfolding idf_value_def by (intro ln_gt_zero) linarith
qed

lemma idf_built:
  assumes dis: "distinct (map fst docs)" and ne: "docs_with docs t \<noteq> []"
  shows "idf (index_of k1' b' docs) t = Inr (idf_value (length docs) (length (docs_with docs t)))"
proof -
  let ?df = "length (docs_with docs t)"
  have le: "?df \<le> length docs" by (simp add: docs_with_def)
  have pos: "0 < ?df" using ne by simp
  have "0 \<le> real_of_int (int (length docs) - int ?df)" using le by simp
  then have "0 < (real_of_int (int (length docs) - int ?df) + 1 / 2) / (real ?df + 1 / 2)"
    by (intro divide_pos_pos) linarith+
  then have x: "\<not> (real_of_int (int (length docs) - int ?df) + 1 / 2) / (real ?df + 1 / 2) + 1 \<le> 0"
    by linarith
  show ?thesis
    using index_of_invariant [OF dis, of k1' b'] ne pos x
    by (simp add: idf_def Let_def idf_value_def)
qed

lemma sum_if_distinct:
  "distinct ds \<Longrightarrow> (\<Sum>d\<leftarrow>ds. if d = x then g d else (0::real)) = (if x \<in> set ds then g x else 0)"
  by (induction ds) auto

lemma touched_Nil: "touched set_order self [] = []"
  by (simp add: touched_def)

lemma touched_Cons:
  "touched set_order self (u # qs) =
     (case map_of (inverted_index self) u of None \<Rightarrow> [] | Some posting \<Rightarrow> set_order posting)
     @ touched set_order self qs"
  by (simp add: touched_def)

lemma score_tokens_built:
  assumes dis: "distinct (map fst docs)" and k: "0 \<le> k1'" and b0: "0 \<le> b'" and b1: "b' \<le> 1"
    and perm: "\<forall>xs. mset (set_order xs) = mset xs"
  shows "\<exists>S'. score_tokens set_order (index_of k1' b' docs) qs S = Inr S' \<and>
     map fst S' = fold (\<lambda>x s. set_add s x) (touched set_order (index_of k1' b' docs) qs) (map fst S) \<and>
     (\<forall>x. lookup0 S' x = lookup0 S x +
        (\<Sum>u\<leftarrow>qs. term_score k1' b' docs (avg_doc_length (index_of k1' b' docs)) u x))"
proof (induction qs arbitrary: S)
  case Nil
  show ?case by (simp add: touched_Nil)
next
  case (Cons u qs)
  let ?I = "index_of k1' b' docs"
  let ?P = "docs_with docs u"
  show ?case
  proof (cases "?P = []")
    case True
    have look: "map_of (inverted_index ?I) u = None"
      using index_of_invariant [OF dis, of k1' b'] True by simp
    have z: "\<And>x. term_score k1' b' docs (avg_doc_length ?I) u x = 0"
      using True by (simp add: term_score_def)
    obtain S' where "score_tokens set_order ?I qs S = Inr S'"
      and "map fst S' = fold (\<lambda>x s. set_add s x) (touched set_order ?I qs) (map fst S)"
      and "\<forall>x. lookup0 S' x = lookup0 S x + (\<Sum>u\<leftarrow>qs. term_score k1' b' docs (avg_doc_length ?I) u x)"
      using Cons.IH [of S] by blast
    then show ?thesis using look z by (simp add: touched_Cons)
  next
    case False
    let ?v = "idf_value (length docs) (length ?P)"
    let ?g = "\<lambda>d. ?v * bm25_weight k1' b' (avg_doc_length ?I)
                   (count_list (tokens_of docs d) u) (length (tokens_of docs d))"
    let ?S1 = "fold (\<lambda>d S. dict_add S d (?g d)) (set_order ?P) S"
    have look: "map_of (inverted_index ?I) u = Some ?P"
      using index_of_invariant [OF dis, of k1' b'] False by simp
    have ms: "mset (set_order ?P) = mset ?P" using perm by blast
    have sub: "set (set_order ?P) \<subseteq> set ?P" using ms by (metis set_mset_mset subset_refl)
    have dP: "distinct (set_order ?P)"
      using ms docs_with_distinct [OF dis, of u] by (metis mset_eq_imp_distinct_iff)
    have sp: "score_postings ?I u ?v (set_order ?P) S = Inr ?S1"
      by (rule score_postings_built [OF dis k b0 b1 False sub])
    have l1: "\<And>x. lookup0 ?S1 x = lookup0 S x + term_score k1' b' docs (avg_doc_length ?I) u x"
    proof -
      fix x
      have "lookup0 ?S1 x = lookup0 S x + (\<Sum>d\<leftarrow>set_order ?P. if d = x then ?g d else 0)"
        by (rule fold_dict_add_lookup0)
      also have "(\<Sum>d\<leftarrow>set_order ?P. if d = x then ?g d else 0) = (if x \<in> set (set_order ?P) then ?g x else 0)"
        by (rule sum_if_distinct [OF dP])
      also have "\<dots> = term_score k1' b' docs (avg_doc_length ?I) u x"
        using ms by (simp add: term_score_def) (metis set_mset_mset)
      finally show "lookup0 ?S1 x = lookup0 S x + term_score k1' b' docs (avg_doc_length ?I) u x" .
    qed
    have k1: "map fst ?S1 = fold (\<lambda>x s. set_add s x) (set_order ?P) (map fst S)"
      by (rule fold_dict_add_keys)
    obtain S' where r: "score_tokens set_order ?I qs ?S1 = Inr S'"
      and ks: "map fst S' = fold (\<lambda>x s. set_add s x) (touched set_order ?I qs) (map fst ?S1)"
      and ls: "\<forall>x. lookup0 S' x = lookup0 ?S1 x + (\<Sum>u\<leftarrow>qs. term_score k1' b' docs (avg_doc_length ?I) u x)"
      using Cons.IH [of ?S1] by blast
    have e: "score_tokens set_order ?I (u # qs) S = Inr S'"
      using look idf_built [OF dis False, of k1' b'] sp r by simp
    have ks': "map fst S' = fold (\<lambda>x s. set_add s x) (touched set_order ?I (u # qs)) (map fst S)"
      using ks k1 look by (simp add: touched_Cons)
    have ls': "\<forall>x. lookup0 S' x = lookup0 S x +
        (\<Sum>u\<leftarrow>u # qs. term_score k1' b' docs (avg_doc_length ?I) u x)"
      using ls l1 by simp
    show ?thesis using e ks' ls' by blast
  qed
qed

lemma search_built:
  assumes dis: "distinct (map fst docs)" and k: "0 \<le> k1'" and b0: "0 \<le> b'" and b1: "b' \<le> 1"
    and perm: "\<forall>xs. mset (set_order xs) = mset xs"
  shows "\<exists>scores. search set_order (index_of k1' b' docs) query top_k =
             Inr (py_slice_to top_k (py_sorted_desc scores)) \<and>
     map fst scores = first_seen (touched set_order (index_of k1' b' docs) (tokenize query)) \<and>
     (\<forall>x. lookup0 scores x =
        (\<Sum>u\<leftarrow>tokenize query. term_score k1' b' docs (avg_doc_length (index_of k1' b' docs)) u x))"
proof -
  obtain S' where "score_tokens set_order (index_of k1' b' docs) (tokenize query) [] = Inr S'"
    and "map fst S' = fold (\<lambda>x s. set_add s x) (touched set_order (index_of k1' b' docs) (tokenize query)) (map fst ([] :: (string \<times> real) list))"
    and "\<forall>x. lookup0 S' x = lookup0 [] x +
        (\<Sum>u\<leftarrow>tokenize query. term_score k1' b' docs (avg_doc_length (index_of k1' b' docs)) u x)"
    using score_tokens_built [OF dis k b0 b1 perm, of "tokenize query" "[]"] by blast
  then show ?thesis
    by (auto simp: search_def first_seen_def lookup0_empty)
qed

lemma score_tokens_empty_index:
  "inverted_index self = [] \<Longrightarrow> score_tokens set_order self qs S = Inr S"
  by (induction qs) simp_all

lemma search_no_postings:
  "inverted_index self = [] \<Longrightarrow> search set_order self query top_k = Inr []"
  by (simp add: search_def score_tokens_empty_index py_sorted_desc_def py_slice_to_def)

lemma tokenize_xy: "tokenize ''x y'' = [''x'', ''y'']" "tokenize ''x'' = [''x'']" "tokenize ''y'' = [''y'']"
  by code_simp+

lemma bm25_weight_strict_mono:
  assumes k: "0 < k1'" and b0: "0 \<le> b'" and b1: "b' \<le> 1" and avg: "0 < avg"
    and len: "1 \<le> doc_len" and tf1: "1 \<le> tf1" and lt: "tf1 < tf2"
  shows "bm25_weight k1' b' avg tf1 doc_len < bm25_weight k1' b' avg tf2 doc_len"
proof -
  define K where "K = k1' * (1 - b' + b' * real doc_len / avg)"
  have q: "0 < real doc_len / avg" using len avg by simp
  have "0 < 1 - b' + b' * real doc_len / avg"
  proof (cases "b' = 1")
    case True
    then show ?thesis using q by simp
  next
    case False
    then have "0 < 1 - b'" using b1 by simp
    moreover have "0 \<le> b' * real doc_len / avg" using b0 avg by (intro divide_nonneg_pos) simp_all
    ultimately show ?thesis by linarith
  qed
  then have K: "0 < K" unfolding K_def using k by simp
  have p1: "0 < real tf1 + K" and p2: "0 < real tf2 + K" using K tf1 lt by simp_all
  have "real tf1 * K < real tf2 * K" using K lt by simp
  then have "real tf1 * (real tf2 + K) < real tf2 * (real tf1 + K)" by (simp add: algebra_simps)
  then have "real tf1 / (real tf1 + K) < real tf2 / (real tf2 + K)"
    using p1 p2 by (simp add: divide_less_eq pos_less_divide_eq algebra_simps split: if_splits)
  then have "real tf1 / (real tf1 + K) * (k1' + 1) < real tf2 / (real tf2 + K) * (k1' + 1)"
    using k by (intro mult_strict_right_mono) simp_all
  then have "real tf1 * (k1' + 1) / (real tf1 + K) < real tf2 * (k1' + 1) / (real tf2 + K)"
    by (simp only: times_divide_eq_left)
  then show ?thesis unfolding bm25_weight_def K_def .
qed

lemma sum_list_strict:
  fixes f g :: "'a \<Rightarrow> real"
  shows "\<forall>u \<in> set qs. f u \<le> g u \<Longrightarrow> \<exists>u \<in> set qs. f u < g u \<Longrightarrow>
         sum_list (map f qs) < sum_list (map g qs)"
proof (induction qs)
  case Nil
  then show ?case by simp
next
  case (Cons a qs)
  have le: "sum_list (map f qs) \<le> sum_list (map g qs)"
    using Cons.prems(1) by (intro sum_list_mono) simp
  show ?case
  proof (cases "f a < g a")
    case True
    then show ?thesis using le by simp
  next
    case False
    then have "\<exists>u \<in> set qs. f u < g u" using Cons.prems(2) by auto
    moreover have "\<forall>u \<in> set qs. f u \<le> g u" using Cons.prems(1) by simp
    ultimately have "sum_list (map f qs) < sum_list (map g qs)" by (rule Cons.IH [rotated])
    moreover have "f a \<le> g a" using Cons.prems(1) by simp
    ultimately show ?thesis by simp
  qed
qed

lemma touched_mem:
  "u \<in> set qs \<Longrightarrow> map_of (inverted_index self) u = Some P \<Longrightarrow>
   set (set_order P) \<subseteq> set (touched set_order self qs)"
  by (induction qs) (auto simp: touched_Cons touched_Nil)

lemma first_seen_set: "set (first_seen xs) = set xs"
  by (simp add: first_seen_def fold_set_add_set)

lemma first_seen_distinct: "distinct (first_seen xs)"
  by (simp add: first_seen_def fold_set_add_distinct)

lemma tokenize_db:
  "tokenize ''db db db x'' = [''db'', ''db'', ''db'', ''x'']"
  "tokenize ''db x y z'' = [''db'', ''x'', ''y'', ''z'']"
  "tokenize ''db x'' = [''db'', ''x'']"
  by code_simp+

section \<open>Claims about the sparse index\<close>

text \<open>
  C7. BM25 zero-corpus safety: for every query string, every \<open>top_k\<close>, every pair of tuning
  constants and every iteration order, \<^verbatim>\<open>search\<close> on an index holding no document returns
  the empty list and raises nothing.
\<close>

theorem search_empty_index:
  "search set_order (BM25Index_init k1' b') query top_k = Inr []"
  by (rule search_no_postings) (simp add: BM25Index_init_def)

text \<open>
  Two documents \<open>d1\<close> (text "y") and \<open>d2\<close> (text "x"), added in this order, and the query
  "x y": both score \<open>ln 2\<close>, and \<open>d2\<close> comes first, against the order of insertion and of
  the ids. Each posting set has one element, so no iteration order is involved.
\<close>

theorem search_tie_order_counterexample:
  "search (\<lambda>posting. posting) (index_of (3 / 2) (3 / 4) [(''d1'', ''y''), (''d2'', ''x'')]) ''x y'' 10
     = Inr [(''d2'', ln 2), (''d1'', ln 2)]"
  by (simp add: search_def index_of_def add_document_def BM25Index_init_def tokenize_xy index_token_def
      set_add_def idf_def Let_def py_sorted_desc_def py_slice_to_def)

text \<open>
  C5 (as amended). BM25 tie order: for every corpus of documents with distinct ids, indexed
  with \<open>k1 \<ge> 0\<close> and \<open>0 \<le> b \<le> 1\<close>, and every query, \<^verbatim>\<open>search\<close> returns, without
  raising, the first \<open>top_k\<close> entries of the stable descending sort of the score table; the
  entries of one score keep the order of the table, which is the order in which the scan
  first reaches each document: query tokens in query order and, within a token, the ids of
  its posting set in the order the set yields them. That order is not the order in which
  the documents were added.
\<close>

theorem search_tie_order:
  assumes dis: "distinct (map fst docs)" and k: "0 \<le> k1'" and b0: "0 \<le> b'" and b1: "b' \<le> 1"
    and perm: "\<forall>posting. mset (set_order posting) = mset posting"
  shows "\<exists>scores. search set_order (index_of k1' b' docs) query top_k =
             Inr (py_slice_to top_k (py_sorted_desc scores)) \<and>
     map fst scores = first_seen (touched set_order (index_of k1' b' docs) (tokenize query)) \<and>
     sorted_wrt (\<lambda>x y. snd y \<le> snd x) (py_sorted_desc scores) \<and>
     (\<forall>s. filter (\<lambda>x. snd x = s) (py_sorted_desc scores) = filter (\<lambda>x. snd x = s) scores)"
proof -
  obtain scores where "search set_order (index_of k1' b' docs) query top_k =
             Inr (py_slice_to top_k (py_sorted_desc scores))"
    and "map fst scores = first_seen (touched set_order (index_of k1' b' docs) (tokenize query))"
    using search_built [OF dis k b0 b1 perm, of query top_k] by blast
  then show ?thesis
    using py_sorted_desc_sorted [of scores] py_sorted_desc_stable [of _ scores] by blast
qed

text \<open>The theorem at the two documents above: the table is keyed \<open>d2\<close>, \<open>d1\<close>.\<close>

theorem search_tie_order_witness:
  "distinct (map fst [(''d1'', ''y''), (''d2'', ''x'')]) \<and> (0::real) \<le> 3 / 2 \<and>
   (0::real) \<le> 3 / 4 \<and> (3 / 4 :: real) \<le> 1 \<and>
   (\<forall>posting :: string list. mset ((\<lambda>p. p) posting) = mset posting) \<and>
   first_seen (touched (\<lambda>p. p) (index_of (3 / 2) (3 / 4) [(''d1'', ''y''), (''d2'', ''x'')])
                 (tokenize ''x y'')) = [''d2'', ''d1''] \<and>
   (\<exists>scores. search (\<lambda>p. p) (index_of (3 / 2) (3 / 4) [(''d1'', ''y''), (''d2'', ''x'')]) ''x y'' 10 =
        Inr (py_slice_to 10 (py_sorted_desc scores)) \<and>
      map fst scores = [''d2'', ''d1''])"
proof -
  let ?docs = "[(''d1'', ''y''), (''d2'', ''x'')]"
  have h1: "distinct (map fst ?docs)" by simp
  have h2: "(0::real) \<le> 3 / 2" and h3: "(0::real) \<le> 3 / 4" and h4: "(3 / 4 :: real) \<le> 1"
    by simp_all
  have h5: "\<forall>posting :: string list. mset ((\<lambda>p. p) posting) = mset posting" by simp
  have t: "first_seen (touched (\<lambda>p. p) (index_of (3 / 2) (3 / 4) ?docs) (tokenize ''x y''))
             = [''d2'', ''d1'']"
    by (simp add: first_seen_def touched_def index_of_def add_document_def BM25Index_init_def tokenize_xy
        index_token_def set_add_def Let_def)
  obtain scores where s1: "search (\<lambda>p. p) (index_of (3 / 2) (3 / 4) ?docs) ''x y'' 10 =
        Inr (py_slice_to 10 (py_sorted_desc scores))" and s2: "map fst scores = [''d2'', ''d1'']"
    using search_tie_order [OF h1 h2 h3 h4 h5, of "''x y''" 10] unfolding t by (elim exE conjE)
  have e: "\<exists>scores. search (\<lambda>p. p) (index_of (3 / 2) (3 / 4) ?docs) ''x y'' 10 =
        Inr (py_slice_to 10 (py_sorted_desc scores)) \<and> map fst scores = [''d2'', ''d1'']"
    using s1 s2 by (intro exI conjI)
  show ?thesis by (intro conjI) (rule h1, rule h2, rule h3, rule h4, rule h5, rule t, rule e)
qed

text \<open>
  C8. BM25 term-frequency monotonicity: in a corpus of documents with distinct ids (any
  other documents may be present), indexed with \<open>k1 > 0\<close> and \<open>0 \<le> b \<le> 1\<close>, let a query
  hold a token \<open>t\<close>, let document \<open>A\<close> hold \<open>t\<close> more than once and document \<open>B\<close> hold it
  once, both of the same length and with the same count of every other query token. Then
  \<^verbatim>\<open>search\<close> raises nothing and, in the ranking it truncates to \<open>top_k\<close>, \<open>A\<close> has a
  strictly higher score than \<open>B\<close>.
\<close>

theorem bm25_term_frequency_monotone:
  assumes dis: "distinct (map fst docs)"
    and k: "0 < k1'" and b0: "0 \<le> b'" and b1: "b' \<le> 1"
    and perm: "\<forall>posting. mset (set_order posting) = mset posting"
    and inA: "(dA, textA) \<in> set docs" and inB: "(dB, textB) \<in> set docs"
    and tq: "t \<in> set (tokenize query)"
    and once: "count_list (tokenize textB) t = 1"
    and many: "1 < count_list (tokenize textA) t"
    and same_len: "length (tokenize textA) = length (tokenize textB)"
    and same_rest: "\<forall>u \<in> set (tokenize query). u \<noteq> t \<longrightarrow>
                      count_list (tokenize textA) u = count_list (tokenize textB) u"
  shows "\<exists>full sA sB. search set_order (index_of k1' b' docs) query top_k = Inr (py_slice_to top_k full) \<and>
           distinct (map fst full) \<and> (dA, sA) \<in> set full \<and> (dB, sB) \<in> set full \<and> sB < sA"
proof -
  let ?I = "index_of k1' b' docs"
  let ?avg = "avg_doc_length ?I"
  let ?qs = "tokenize query"
  have k0: "0 \<le> k1'" using k by simp
  obtain scores where sr: "search set_order ?I query top_k = Inr (py_slice_to top_k (py_sorted_desc scores))"
    and keys: "map fst scores = first_seen (touched set_order ?I ?qs)"
    and look: "\<forall>x. lookup0 scores x = (\<Sum>u\<leftarrow>?qs. term_score k1' b' docs ?avg u x)"
    using search_built [OF dis k0 b0 b1 perm, of query top_k] by blast
  have tA: "tokens_of docs dA = tokenize textA" and tB: "tokens_of docs dB = tokenize textB"
    using dis inA inB by (simp_all add: tokens_of_def)
  have idA: "dA \<in> fst ` set docs" and idB: "dB \<in> fst ` set docs" using inA inB by force+
  have cA: "t \<in> set (tokenize textA)" using many by (metis count_list_0_iff not_less_zero)
  have cB: "t \<in> set (tokenize textB)" using once by (metis count_list_0_iff zero_neq_one)
  have pA: "dA \<in> set (docs_with docs t)" using docs_with_iff [OF dis] idA cA tA by simp
  have pB: "dB \<in> set (docs_with docs t)" using docs_with_iff [OF dis] idB cB tB by simp
  have ne: "docs_with docs t \<noteq> []" using pA by auto
  have inv: "map_of (inverted_index ?I) t = Some (docs_with docs t)"
    using index_of_invariant [OF dis, of k1' b'] ne by simp
  have so: "set (set_order (docs_with docs t)) = set (docs_with docs t)"
    using perm by (metis set_mset_mset)
  have "set (docs_with docs t) \<subseteq> set (touched set_order ?I ?qs)"
    using touched_mem [OF tq inv, of set_order] so by simp
  then have kA: "dA \<in> set (map fst scores)" and kB: "dB \<in> set (map fst scores)"
    using pA pB keys by (auto simp: first_seen_set)
  have dk: "distinct (map fst scores)" using keys by (simp add: first_seen_distinct)
  obtain sA where eA: "(dA, sA) \<in> set scores" using kA by auto
  obtain sB where eB: "(dB, sB) \<in> set scores" using kB by auto
  have vA: "sA = (\<Sum>u\<leftarrow>?qs. term_score k1' b' docs ?avg u dA)"
    using lookup0_distinct [OF dk eA] look by simp
  have vB: "sB = (\<Sum>u\<leftarrow>?qs. term_score k1' b' docs ?avg u dB)"
    using lookup0_distinct [OF dk eB] look by simp
  have avg: "0 < ?avg" by (rule index_avg_pos [OF dis ne])
  have le: "\<forall>u \<in> set ?qs. term_score k1' b' docs ?avg u dB \<le> term_score k1' b' docs ?avg u dA"
    and lt: "\<exists>u \<in> set ?qs. term_score k1' b' docs ?avg u dB < term_score k1' b' docs ?avg u dA"
  proof -
    have len1: "1 \<le> length (tokenize textB)" using cB by (cases "tokenize textB") auto
    have "bm25_weight k1' b' ?avg (count_list (tokenize textB) t) (length (tokenize textB))
            < bm25_weight k1' b' ?avg (count_list (tokenize textA) t) (length (tokenize textB))"
      using once many by (intro bm25_weight_strict_mono [OF k b0 b1 avg len1]) simp_all
    moreover have "0 < idf_value (length docs) (length (docs_with docs t))"
      by (intro idf_value_pos) (simp add: docs_with_def)
    ultimately have strict: "term_score k1' b' docs ?avg t dB < term_score k1' b' docs ?avg t dA"
      using pA pB tA tB same_len by (simp add: term_score_def)
    have eq: "term_score k1' b' docs ?avg u dB = term_score k1' b' docs ?avg u dA"
      if u: "u \<in> set ?qs" and ut: "u \<noteq> t" for u
    proof -
      have c: "count_list (tokenize textA) u = count_list (tokenize textB) u"
        using same_rest u ut by blast
      have "u \<in> set (tokenize textA) \<longleftrightarrow> u \<in> set (tokenize textB)"
        using c by (metis count_list_0_iff)
      then have "dA \<in> set (docs_with docs u) \<longleftrightarrow> dB \<in> set (docs_with docs u)"
        using docs_with_iff [OF dis] idA idB tA tB by simp
      then show ?thesis using c tA tB same_len by (simp add: term_score_def)
    qed
    show "\<forall>u \<in> set ?qs. term_score k1' b' docs ?avg u dB \<le> term_score k1' b' docs ?avg u dA"
      using strict eq by (metis less_eq_real_def)
    show "\<exists>u \<in> set ?qs. term_score k1' b' docs ?avg u dB < term_score k1' b' docs ?avg u dA"
      using strict tq by blast
  qed
  have less: "sB < sA" unfolding vA vB by (rule sum_list_strict [OF le lt])
  let ?full = "py_sorted_desc scores"
  have m: "mset ?full = mset scores" by (rule py_sorted_desc_mset)
  have "mset (map fst ?full) = mset (map fst scores)" using m by (metis mset_map)
  then have d': "distinct (map fst ?full)" using dk by (metis mset_eq_imp_distinct_iff)
  have "set ?full = set scores" using m by (metis set_mset_mset)
  then show ?thesis using sr d' eA eB less by blast
qed

text \<open>The theorem at three documents and the query "db x": \<open>a\<close> holds "db" three times,
  \<open>b\<close> once, both have four tokens and one "x".\<close>

theorem bm25_term_frequency_monotone_witness:
  "distinct (map fst [(''a'', ''db db db x''), (''b'', ''db x y z''), (''c'', ''cloud'')]) \<and>
   (0::real) < 3 / 2 \<and> (0::real) \<le> 3 / 4 \<and> (3 / 4 :: real) \<le> 1 \<and>
   (\<forall>posting :: string list. mset ((\<lambda>p. p) posting) = mset posting) \<and>
   tokenize ''db x'' = [''db'', ''x''] \<and>
   count_list (tokenize ''db x y z'') ''db'' = 1 \<and>
   1 < count_list (tokenize ''db db db x'') ''db'' \<and>
   length (tokenize ''db db db x'') = length (tokenize ''db x y z'') \<and>
   count_list (tokenize ''db db db x'') ''x'' = count_list (tokenize ''db x y z'') ''x'' \<and>
   (\<exists>full sA sB.
      search (\<lambda>p. p) (index_of (3 / 2) (3 / 4)
          [(''a'', ''db db db x''), (''b'', ''db x y z''), (''c'', ''cloud'')]) ''db x'' 10
        = Inr (py_slice_to 10 full) \<and>
      distinct (map fst full) \<and> (''a'', sA) \<in> set full \<and> (''b'', sB) \<in> set full \<and> sB < sA)"
proof -
  let ?docs = "[(''a'', ''db db db x''), (''b'', ''db x y z''), (''c'', ''cloud'')]"
  have h1: "distinct (map fst ?docs)" by simp
  have h2: "(0::real) < 3 / 2" and h3: "(0::real) \<le> 3 / 4" and h4: "(3 / 4 :: real) \<le> 1"
    by simp_all
  have h5: "\<forall>posting :: string list. mset ((\<lambda>p. p) posting) = mset posting" by simp
  have iA: "(''a'', ''db db db x'') \<in> set ?docs" and iB: "(''b'', ''db x y z'') \<in> set ?docs"
    by simp_all
  have q: "tokenize ''db x'' = [''db'', ''x'']" by (rule tokenize_db)
  have tq: "''db'' \<in> set (tokenize ''db x'')" by (simp add: tokenize_db)
  have once: "count_list (tokenize ''db x y z'') ''db'' = 1" by (simp add: tokenize_db)
  have many: "1 < count_list (tokenize ''db db db x'') ''db''" by (simp add: tokenize_db)
  have len: "length (tokenize ''db db db x'') = length (tokenize ''db x y z'')" by (simp add: tokenize_db)
  have cx: "count_list (tokenize ''db db db x'') ''x'' = count_list (tokenize ''db x y z'') ''x''"
    by (simp add: tokenize_db)
  have rest: "\<forall>u \<in> set (tokenize ''db x''). u \<noteq> ''db'' \<longrightarrow>
      count_list (tokenize ''db db db x'') u = count_list (tokenize ''db x y z'') u"
    using cx by (simp add: q)
  note T = bm25_term_frequency_monotone [OF h1 h2 h3 h4 h5 iA iB tq once many len rest, of 10]
  show ?thesis
    by (intro conjI) (rule h1, rule h2, rule h3, rule h4, rule h5, rule q, rule once, rule many,
        rule len, rule cx, rule T)
qed

section \<open>The construction of the retriever: lemmas\<close>

lemma scroll_loop_raise:
  "scroll_fn offset = Inl e \<Longrightarrow> scroll_loop scroll_fn offset index n = Some (index, Inl e)"
  by (subst scroll_loop.simps) simp

lemma init_of_loop:
  "scroll_loop scroll_fn None (BM25Index_init (3 / 2) (3 / 4)) 0 = Some (index, Inl e) \<Longrightarrow>
   HybridRetriever_init cfg scroll_fn =
     Some (Inr \<lparr> retriever_config = cfg, bm25_index = index,
                 console = [Building_index, Failed_to_build e, Retriever_initialized] \<rparr>)"
  by (simp add: HybridRetriever_init_def build_bm25_index_def)

lemma init_never_raises: "HybridRetriever_init cfg scroll_fn \<noteq> Some (Inl e)"
  by (simp add: HybridRetriever_init_def split: option.splits)

lemma sparse_search_empty:
  "inverted_index (bm25_index self) = [] \<Longrightarrow> sparse_search set_order self query = []"
  by (simp add: sparse_search_def search_no_postings)

section \<open>Claims about the construction of the retriever\<close>

text \<open>
  C2 (as amended). A failure while building the sparse index does not leave the
  constructor: whatever the vector store does, \<^verbatim>\<open>HybridRetriever.__init__\<close> never ends in
  an exception from the build. When a scroll raises, the exception is caught in
  \<^verbatim>\<open>_build_bm25_index\<close>, a "Failed to build BM25 index" line is printed and the
  constructor returns a retriever whose index holds the documents of the pages read before
  the failure; when the first scroll raises, that index is empty and every sparse search
  returns no result.
\<close>

theorem build_failure_is_swallowed:
  "HybridRetriever_init cfg scroll_fn \<noteq> Some (Inl e') \<and>
   (scroll_loop scroll_fn None (BM25Index_init (3 / 2) (3 / 4)) 0 = Some (index, Inl e) \<longrightarrow>
      HybridRetriever_init cfg scroll_fn =
        Some (Inr \<lparr> retriever_config = cfg, bm25_index = index,
                    console = [Building_index, Failed_to_build e, Retriever_initialized] \<rparr>)) \<and>
   (scroll_fn None = Inl e \<longrightarrow>
      HybridRetriever_init cfg scroll_fn =
        Some (Inr \<lparr> retriever_config = cfg, bm25_index = BM25Index_init (3 / 2) (3 / 4),
                    console = [Building_index, Failed_to_build e, Retriever_initialized] \<rparr>) \<and>
      sparse_search set_order
        \<lparr> retriever_config = cfg, bm25_index = BM25Index_init (3 / 2) (3 / 4),
          console = [Building_index, Failed_to_build e, Retriever_initialized] \<rparr> query = [])"
  using init_never_raises [of cfg scroll_fn e'] init_of_loop [of scroll_fn index e cfg]
    init_of_loop [OF scroll_loop_raise, of scroll_fn e cfg]
    sparse_search_empty [of "\<lparr> retriever_config = cfg, bm25_index = BM25Index_init (3 / 2) (3 / 4),
          console = [Building_index, Failed_to_build e, Retriever_initialized] \<rparr>" set_order query]
  by (simp add: BM25Index_init_def)

text \<open>
  With a vector store that cannot be reached, the constructor returns a retriever, with no
  exception, and a sparse search on it returns the empty list.
\<close>

theorem build_failure_counterexample:
  "HybridRetriever_init DEFAULT_CONFIG unreachable_store =
     Some (Inr \<lparr> retriever_config = DEFAULT_CONFIG, bm25_index = BM25Index_init (3 / 2) (3 / 4),
                 console = [Building_index, Failed_to_build (TransportError ''connection refused''),
                            Retriever_initialized] \<rparr>) \<and>
   sparse_search (\<lambda>p. p)
     \<lparr> retriever_config = DEFAULT_CONFIG, bm25_index = BM25Index_init (3 / 2) (3 / 4),
       console = [Building_index, Failed_to_build (TransportError ''connection refused''),
                  Retriever_initialized] \<rparr> ''managed postgresql database'' = []"
proof -
  have "scroll_loop unreachable_store None (BM25Index_init (3 / 2) (3 / 4)) 0 =
          Some (BM25Index_init (3 / 2) (3 / 4), Inl (TransportError ''connection refused''))"
    by (subst scroll_loop.simps) (simp add: unreachable_store_def)
  then show ?thesis
    by (simp add: HybridRetriever_init_def build_bm25_index_def sparse_search_def search_def
        score_tokens_empty_index BM25Index_init_def py_sorted_desc_def py_slice_to_def)
qed

text \<open>The theorem at a store that fails on its second page, and at one that fails on its
  first.\<close>

theorem build_failure_is_swallowed_witness:
  "scroll_loop flaky_store None (BM25Index_init (3 / 2) (3 / 4)) 0 =
     Some (add_document (BM25Index_init (3 / 2) (3 / 4)) ''1''
             (create_search_text (point_payload first_point)),
           Inl (TransportError ''connection reset'')) \<and>
   HybridRetriever_init DEFAULT_CONFIG flaky_store =
     Some (Inr \<lparr> retriever_config = DEFAULT_CONFIG,
                 bm25_index = add_document (BM25Index_init (3 / 2) (3 / 4)) ''1''
                                (create_search_text (point_payload first_point)),
                 console = [Building_index, Failed_to_build (TransportError ''connection reset''),
                            Retriever_initialized] \<rparr>) \<and>
   unreachable_store None = Inl (TransportError ''connection refused'') \<and>
   HybridRetriever_init DEFAULT_CONFIG unreachable_store =
     Some (Inr \<lparr> retriever_config = DEFAULT_CONFIG, bm25_index = BM25Index_init (3 / 2) (3 / 4),
                 console = [Building_index, Failed_to_build (TransportError ''connection refused''),
                            Retriever_initialized] \<rparr>)"
proof -
  let ?ix = "add_document (BM25Index_init (3 / 2) (3 / 4)) ''1''
               (create_search_text (point_payload first_point))"
  have pid: "point_id first_point = ''1''" by (simp add: first_point_def)
  have l2: "scroll_loop flaky_store (Some ''100'') ?ix (Suc 0) = Some (?ix, Inl (TransportError ''connection reset''))"
    by (rule scroll_loop_raise) (simp add: flaky_store_def)
  have l1: "scroll_loop flaky_store None (BM25Index_init (3 / 2) (3 / 4)) 0 =
      Some (?ix, Inl (TransportError ''connection reset''))"
    by (subst scroll_loop.simps) (simp add: flaky_store_def l2 pid)
  have u: "unreachable_store None = Inl (TransportError ''connection refused'')"
    by (simp add: unreachable_store_def)
  note T1 = build_failure_is_swallowed [of DEFAULT_CONFIG flaky_store ZeroDivisionError ?ix
      "TransportError ''connection reset''" "\<lambda>p. p" "''q''"]
  note T2 = build_failure_is_swallowed [of DEFAULT_CONFIG unreachable_store ZeroDivisionError ?ix
      "TransportError ''connection refused''" "\<lambda>p. p" "''q''"]
  have a: "HybridRetriever_init DEFAULT_CONFIG flaky_store =
     Some (Inr \<lparr> retriever_config = DEFAULT_CONFIG, bm25_index = ?ix,
                 console = [Building_index, Failed_to_build (TransportError ''connection reset''),
                            Retriever_initialized] \<rparr>)"
    using T1 l1 by blast
  have b: "HybridRetriever_init DEFAULT_CONFIG unreachable_store =
     Some (Inr \<lparr> retriever_config = DEFAULT_CONFIG, bm25_index = BM25Index_init (3 / 2) (3 / 4),
                 console = [Building_index, Failed_to_build (TransportError ''connection refused''),
                            Retriever_initialized] \<rparr>)"
    using T2 u by blast
  show ?thesis by (intro conjI) (rule l1, rule a, rule u, rule b)
qed

end
